theory Spec2Isabelle
  imports Main "HOL-Library.Word"
begin

section \<open>Bytes, text and the exceptions of the Python runtime\<close>

text \<open>
  A Python \<^verbatim>\<open>bytes\<close> object is a list of 8-bit words, a Python \<^verbatim>\<open>str\<close> is a list
  of Unicode code points (natural numbers below \<open>0x110000\<close>), and a Python \<^verbatim>\<open>int\<close>
  is an \<^typ>\<open>int\<close>. Every exception that the modelled code can raise is a value of
  \<open>pyerror\<close>; a function that may raise returns \<open>pyerror + 'a\<close>.
\<close>

type_synonym byte = "8 word"
type_synonym pystr = "nat list"

datatype pyerror =
  StructError | IndexError | KeyError | UnicodeEncodeError | UnicodeDecodeError | ValueError

text \<open>A string literal of the source, as code points.\<close>

definition lit :: "string \<Rightarrow> pystr" where
  "lit s = map of_char s"

subsection \<open>\<^verbatim>\<open>struct.pack\<close> and \<^verbatim>\<open>struct.unpack_from\<close> for \<^verbatim>\<open>"<I"\<close> and \<^verbatim>\<open>"<II"\<close>\<close>

text \<open>The byte with a given value, taken modulo 256.\<close>

definition to_byte :: "nat \<Rightarrow> byte" where
  "to_byte n = of_nat n"

definition le32 :: "nat \<Rightarrow> byte list" where
  "le32 n = [to_byte n, to_byte (n div 256), to_byte (n div 65536), to_byte (n div 16777216)]"

definition le32_val :: "byte list \<Rightarrow> nat" where
  "le32_val bs = unat (bs ! 0) + 256 * unat (bs ! 1) + 65536 * unat (bs ! 2)
                 + 16777216 * unat (bs ! 3)"

text \<open>\<^verbatim>\<open>struct.pack("<I", v)\<close> raises \<^verbatim>\<open>struct.error\<close> outside \<open>0 \<le> v < 2^32\<close>.\<close>

definition pack_u32 :: "int \<Rightarrow> pyerror + byte list" where
  "pack_u32 v = (if 0 \<le> v \<and> v < 4294967296 then Inr (le32 (nat v)) else Inl StructError)"

text \<open>\<^verbatim>\<open>struct.pack("<II", h, o)\<close>: both fields are range-checked.\<close>

definition pack_entry :: "int \<Rightarrow> int \<Rightarrow> pyerror + byte list" where
  "pack_entry h off =
     (case pack_u32 h of
        Inl e \<Rightarrow> Inl e
      | Inr hb \<Rightarrow> (case pack_u32 off of Inl e \<Rightarrow> Inl e | Inr ob \<Rightarrow> Inr (hb @ ob)))"

text \<open>
  \<^verbatim>\<open>struct.unpack_from(fmt, b, off)\<close> raises \<^verbatim>\<open>struct.error\<close> when the buffer does
  not hold the whole field at \<open>off\<close>.
\<close>

definition unpack_u32 :: "byte list \<Rightarrow> nat \<Rightarrow> pyerror + nat" where
  "unpack_u32 b off =
     (if off + 4 \<le> length b then Inr (le32_val (take 4 (drop off b))) else Inl StructError)"

definition unpack_entry :: "byte list \<Rightarrow> nat \<Rightarrow> pyerror + (nat \<times> nat)" where
  "unpack_entry b off =
     (if off + 8 \<le> length b
      then Inr (le32_val (take 4 (drop off b)), le32_val (take 4 (drop (off + 4) b)))
      else Inl StructError)"

subsection \<open>The codecs: UTF-8, cp1252, latin1 and \<^verbatim>\<open>bytes.hex\<close>\<close>

text \<open>
  \<^verbatim>\<open>str.encode("utf-8")\<close>: one to four bytes per code point; a surrogate
  (\<open>0xD800\<close> to \<open>0xDFFF\<close>) raises \<^verbatim>\<open>UnicodeEncodeError\<close>. A Python string holds no
  code point from \<open>0x110000\<close> on; the model gives the same error there.
\<close>

definition utf8_char :: "nat \<Rightarrow> pyerror + byte list" where
  "utf8_char c =
     (if c < 128 then Inr [to_byte c]
      else if c < 2048 then Inr [to_byte (192 + c div 64), to_byte (128 + c mod 64)]
      else if c < 65536 then
        (if 55296 \<le> c \<and> c \<le> 57343 then Inl UnicodeEncodeError
         else Inr [to_byte (224 + c div 4096), to_byte (128 + (c div 64) mod 64),
                   to_byte (128 + c mod 64)])
      else if c < 1114112 then
        Inr [to_byte (240 + c div 262144), to_byte (128 + (c div 4096) mod 64),
             to_byte (128 + (c div 64) mod 64), to_byte (128 + c mod 64)]
      else Inl UnicodeEncodeError)"

fun utf8_encode :: "pystr \<Rightarrow> pyerror + byte list" where
  "utf8_encode [] = Inr []"
| "utf8_encode (c # cs) =
     (case utf8_char c of
        Inl e \<Rightarrow> Inl e
      | Inr bs \<Rightarrow> (case utf8_encode cs of Inl e \<Rightarrow> Inl e | Inr r \<Rightarrow> Inr (bs @ r)))"

text \<open>
  \<^verbatim>\<open>bytes.decode("utf-8")\<close> with the default strict error handler: shortest form
  only, no surrogates, nothing above \<open>0x10FFFF\<close>, no truncated sequence.
\<close>

definition cont :: "byte \<Rightarrow> bool" where
  "cont b = (128 \<le> unat b \<and> unat b \<le> 191)"

definition cpush :: "nat \<Rightarrow> pyerror + pystr \<Rightarrow> pyerror + pystr" where
  "cpush c r = (case r of Inl e \<Rightarrow> Inl e | Inr s \<Rightarrow> Inr (c # s))"

fun utf8_decode :: "byte list \<Rightarrow> pyerror + pystr" where
  "utf8_decode [] = Inr []"
| "utf8_decode (b0 # bs) =
     (let n0 = unat b0 in
      if n0 < 128 then cpush n0 (utf8_decode bs)
      else if 194 \<le> n0 \<and> n0 \<le> 223 then
        (case bs of
           b1 # r \<Rightarrow>
             if cont b1 then cpush ((n0 - 192) * 64 + (unat b1 - 128)) (utf8_decode r)
             else Inl UnicodeDecodeError
         | _ \<Rightarrow> Inl UnicodeDecodeError)
      else if 224 \<le> n0 \<and> n0 \<le> 239 then
        (case bs of
           b1 # b2 # r \<Rightarrow>
             if cont b1 \<and> cont b2 \<and> (n0 = 224 \<longrightarrow> 160 \<le> unat b1)
                \<and> (n0 = 237 \<longrightarrow> unat b1 \<le> 159)
             then cpush ((n0 - 224) * 4096 + (unat b1 - 128) * 64 + (unat b2 - 128))
                        (utf8_decode r)
             else Inl UnicodeDecodeError
         | _ \<Rightarrow> Inl UnicodeDecodeError)
      else if 240 \<le> n0 \<and> n0 \<le> 244 then
        (case bs of
           b1 # b2 # b3 # r \<Rightarrow>
             if cont b1 \<and> cont b2 \<and> cont b3 \<and> (n0 = 240 \<longrightarrow> 144 \<le> unat b1)
                \<and> (n0 = 244 \<longrightarrow> unat b1 \<le> 143)
             then cpush ((n0 - 240) * 262144 + (unat b1 - 128) * 4096
                         + (unat b2 - 128) * 64 + (unat b3 - 128))
                        (utf8_decode r)
             else Inl UnicodeDecodeError
         | _ \<Rightarrow> Inl UnicodeDecodeError)
      else Inl UnicodeDecodeError)"

text \<open>
  \<^verbatim>\<open>bytes.decode("cp1252")\<close>: the bytes \<open>0x81\<close>, \<open>0x8D\<close>, \<open>0x8F\<close>, \<open>0x90\<close> and \<open>0x9D\<close>
  are undefined and raise; \<open>0x80\<close> to \<open>0x9F\<close> otherwise map into the table below; every
  other byte is its own code point.
\<close>

definition cp1252_table :: "nat list" where
  "cp1252_table =
     [8364, 0, 8218, 402, 8222, 8230, 8224, 8225, 710, 8240, 352, 8249, 338, 0, 381, 0,
      0, 8216, 8217, 8220, 8221, 8226, 8211, 8212, 732, 8482, 353, 8250, 339, 0, 382, 376]"

definition cp1252_char :: "byte \<Rightarrow> pyerror + nat" where
  "cp1252_char b =
     (let n = unat b in
      if n < 128 \<or> 160 \<le> n then Inr n
      else if n \<in> {129, 141, 143, 144, 157} then Inl UnicodeDecodeError
      else Inr (cp1252_table ! (n - 128)))"

fun cp1252_decode :: "byte list \<Rightarrow> pyerror + pystr" where
  "cp1252_decode [] = Inr []"
| "cp1252_decode (b # bs) =
     (case cp1252_char b of Inl e \<Rightarrow> Inl e | Inr c \<Rightarrow> cpush c (cp1252_decode bs))"

text \<open>\<^verbatim>\<open>bytes.decode("latin1")\<close>: every byte is its own code point.\<close>

definition latin1_decode :: "byte list \<Rightarrow> pyerror + pystr" where
  "latin1_decode bs = Inr (map unat bs)"

text \<open>\<^verbatim>\<open>bytes.hex()\<close>: two lower-case hexadecimal digits per byte.\<close>

definition hex_digit :: "nat \<Rightarrow> nat" where
  "hex_digit d = (if d < 10 then 48 + d else 87 + d)"

definition bytes_hex :: "byte list \<Rightarrow> pystr" where
  "bytes_hex bs = concat (map (\<lambda>b. [hex_digit (unat b div 16), hex_digit (unat b mod 16)]) bs)"

section \<open>The patch-table codec (\<^verbatim>\<open>whm_table.py\<close>)\<close>

datatype encoding = Utf8 | Cp1252 | Latin1

fun decode_with :: "encoding \<Rightarrow> byte list \<Rightarrow> pyerror + pystr" where
  "decode_with Utf8 b = utf8_decode b"
| "decode_with Cp1252 b = cp1252_decode b"
| "decode_with Latin1 b = latin1_decode b"

text \<open>
  \<^verbatim>\<open>decode_bytes\<close>: the \<^verbatim>\<open>for enc in (...)\<close> loop with its \<^verbatim>\<open>try\<close>/\<^verbatim>\<open>except Exception:
  continue\<close>, then \<^verbatim>\<open>return bts.hex()\<close> after the loop.
\<close>

fun decode_loop :: "encoding list \<Rightarrow> byte list \<Rightarrow> pystr" where
  "decode_loop [] bts = bytes_hex bts"
| "decode_loop (enc # encs) bts =
     (case decode_with enc bts of Inr s \<Rightarrow> s | Inl e \<Rightarrow> decode_loop encs bts)"

definition encodings :: "encoding list" where
  "encodings = [Utf8, Cp1252, Latin1]"

definition decode_bytes :: "byte list \<Rightarrow> pystr" where
  "decode_bytes bts = decode_loop encodings bts"


text \<open>An entry as \<^verbatim>\<open>parse_whm_table\<close> returns it and \<^verbatim>\<open>dump_whm_table\<close> takes it: the
  dictionary \<^verbatim>\<open>{"hash": h, "text": t}\<close>.\<close>

record item =
  hash :: int
  text' :: pystr

definition read_u32 :: "byte list \<Rightarrow> nat \<Rightarrow> pyerror + (nat \<times> nat)" where
  "read_u32 b off = (case unpack_u32 b off of Inl e \<Rightarrow> Inl e | Inr v \<Rightarrow> Inr (v, off + 4))"

text \<open>The \<^verbatim>\<open>for _ in range(count)\<close> loop of \<^verbatim>\<open>read_entries\<close>.\<close>

fun read_entries_loop ::
  "nat \<Rightarrow> byte list \<Rightarrow> nat \<Rightarrow> (nat \<times> nat) list \<Rightarrow> pyerror + ((nat \<times> nat) list \<times> nat)" where
  "read_entries_loop 0 data off entries = Inr (entries, off)"
| "read_entries_loop (Suc n) data off entries =
     (case unpack_entry data off of
        Inl e \<Rightarrow> Inl e
      | Inr ho \<Rightarrow> read_entries_loop n data (off + 8) (entries @ [ho]))"

definition read_entries :: "byte list \<Rightarrow> pyerror + ((nat \<times> nat) list \<times> nat \<times> nat)" where
  "read_entries data =
     (case read_u32 data 0 of
        Inl e \<Rightarrow> Inl e
      | Inr (count, off) \<Rightarrow>
          (case read_entries_loop count data off [] of
             Inl e \<Rightarrow> Inl e
           | Inr (entries, off') \<Rightarrow>
               (case read_u32 data off' of
                  Inl e \<Rightarrow> Inl e
                | Inr (blob_size, _) \<Rightarrow> Inr (entries, off' + 4, blob_size))))"

text \<open>
  The inner \<^verbatim>\<open>while j < blob_size and blob[j] != 0\<close> loop. Indexing a \<^verbatim>\<open>bytes\<close> object
  at or past its length raises \<^verbatim>\<open>IndexError\<close>; the slice that made \<open>blob\<close> may be
  shorter than \<open>blob_size\<close>.
\<close>

function scan_nul :: "byte list \<Rightarrow> nat \<Rightarrow> nat \<Rightarrow> pyerror + nat" where
  "scan_nul blob blob_size j =
     (if j < blob_size then
        (if j < length blob then
           (if blob ! j \<noteq> 0 then scan_nul blob blob_size (j + 1) else Inr j)
         else Inl IndexError)
      else Inr j)"
  by pat_completeness auto
termination
  by (relation "measure (\<lambda>(blob, blob_size, j). blob_size - j)") auto

declare scan_nul.simps [simp del]

text \<open>A Python slice \<^verbatim>\<open>b[i:j]\<close> with \<open>0 \<le> i\<close> and \<open>0 \<le> j\<close>: out-of-range bounds are clipped.\<close>

definition slice :: "'a list \<Rightarrow> nat \<Rightarrow> nat \<Rightarrow> 'a list" where
  "slice b i j = take (j - i) (drop i b)"

definition BINARY :: pystr where
  "BINARY = lit ''[BINARY]''"

text \<open>The body of the \<^verbatim>\<open>for h, off in entries\<close> loop, up to \<open>bts\<close> and then \<open>text\<close>.\<close>

definition entry_bytes :: "byte list \<Rightarrow> nat \<Rightarrow> nat \<Rightarrow> pyerror + byte list" where
  "entry_bytes blob blob_size off =
     (if off < blob_size then
        (case scan_nul blob blob_size off of
           Inl e \<Rightarrow> Inl e
         | Inr j \<Rightarrow> Inr (slice blob off j))
      else Inr [])"

definition entry_text :: "byte list \<Rightarrow> nat \<Rightarrow> nat \<Rightarrow> pyerror + pystr" where
  "entry_text blob blob_size off =
     (case entry_bytes blob blob_size off of
        Inl e \<Rightarrow> Inl e
      | Inr bts \<Rightarrow> Inr (if bts \<noteq> [] then decode_bytes bts else BINARY))"

fun parse_loop ::
  "byte list \<Rightarrow> nat \<Rightarrow> (nat \<times> nat) list \<Rightarrow> item list \<Rightarrow> pyerror + item list" where
  "parse_loop blob blob_size [] results = Inr results"
| "parse_loop blob blob_size ((h, off) # es) results =
     (case entry_text blob blob_size off of
        Inl e \<Rightarrow> Inl e
      | Inr t \<Rightarrow> parse_loop blob blob_size es (results @ [\<lparr>hash = int h, text' = t\<rparr>]))"

text \<open>\<^verbatim>\<open>parse_whm_table\<close>, on the bytes that \<^verbatim>\<open>path.read_bytes()\<close> returns.\<close>

definition parse_whm_table :: "byte list \<Rightarrow> pyerror + item list" where
  "parse_whm_table data =
     (case read_entries data of
        Inl e \<Rightarrow> Inl e
      | Inr (entries, blob_start, blob_size) \<Rightarrow>
          parse_loop (slice data blob_start (blob_start + blob_size)) blob_size entries [])"

text \<open>The first loop of \<^verbatim>\<open>dump_whm_table\<close>: it grows \<open>blob\<close> and \<open>offsets\<close>.\<close>

fun dump_loop ::
  "item list \<Rightarrow> byte list \<Rightarrow> nat list \<Rightarrow> pyerror + (byte list \<times> nat list)" where
  "dump_loop [] blob offsets = Inr (blob, offsets)"
| "dump_loop (it # its) blob offsets =
     (case utf8_encode (text' it) of
        Inl e \<Rightarrow> Inl e
      | Inr b \<Rightarrow> dump_loop its (blob @ b @ [0]) (offsets @ [length blob]))"

text \<open>The second loop, over \<^verbatim>\<open>zip(items, offsets)\<close>: it grows \<open>header\<close>.\<close>

fun header_loop :: "(item \<times> nat) list \<Rightarrow> byte list \<Rightarrow> pyerror + byte list" where
  "header_loop [] header = Inr header"
| "header_loop ((it, off) # r) header =
     (case pack_entry (hash it) (int off) of
        Inl e \<Rightarrow> Inl e
      | Inr bs \<Rightarrow> header_loop r (header @ bs))"

text \<open>\<^verbatim>\<open>dump_whm_table\<close>; the result is \<open>out_data\<close>, the bytes handed to
  \<^verbatim>\<open>out_path.write_bytes\<close>.\<close>

definition dump_whm_table :: "item list \<Rightarrow> pyerror + byte list" where
  "dump_whm_table items =
     (case dump_loop items [] [] of
        Inl e \<Rightarrow> Inl e
      | Inr (blob, offsets) \<Rightarrow>
          (case pack_u32 (int (length items)) of
             Inl e \<Rightarrow> Inl e
           | Inr cb \<Rightarrow>
               (case header_loop (zip items offsets) cb of
                  Inl e \<Rightarrow> Inl e
                | Inr header \<Rightarrow>
                    (case pack_u32 (int (length blob)) of
                       Inl e \<Rightarrow> Inl e
                     | Inr sb \<Rightarrow> Inr (header @ sb @ blob)))))"

subsection \<open>The layout of the file, in the words of the specification\<close>

text \<open>A code point that UTF-8 can encode: below \<open>0x110000\<close> and not a surrogate.\<close>

definition scalar :: "nat \<Rightarrow> bool" where
  "scalar c = (c < 1114112 \<and> \<not> (55296 \<le> c \<and> c \<le> 57343))"

text \<open>The UTF-8 bytes of a text (empty where the text cannot be encoded).\<close>

definition utf8_bytes :: "pystr \<Rightarrow> byte list" where
  "utf8_bytes t = (case utf8_encode t of Inr b \<Rightarrow> b | Inl e \<Rightarrow> [])"

text \<open>The blob: each text UTF-8-encoded and NUL-terminated, concatenated in input order.\<close>

definition blob_of :: "item list \<Rightarrow> byte list" where
  "blob_of items = concat (map (\<lambda>it. utf8_bytes (text' it) @ [0]) items)"

text \<open>The offset of entry \<open>k\<close>: where its bytes start, counted from the start of the blob.\<close>

definition offset_of :: "item list \<Rightarrow> nat \<Rightarrow> nat" where
  "offset_of items k = length (blob_of (take k items))"

text \<open>
  \<^verbatim>\<open>uint32 entry_count; entry_count x { uint32 hash; uint32 offset }; uint32 blob_size;
  byte[blob_size] blob\<close>, little-endian.
\<close>

definition whm_layout :: "item list \<Rightarrow> byte list" where
  "whm_layout items =
     le32 (length items)
     @ concat (map (\<lambda>k. le32 (nat (hash (items ! k))) @ le32 (offset_of items k))
                   [0..<length items])
     @ le32 (length (blob_of items))
     @ blob_of items"

text \<open>
  The entries that fit the layout: every hash is a uint32, every text can be encoded, and
  the blob size is a uint32.
\<close>

definition writable :: "item list \<Rightarrow> bool" where
  "writable items =
     (list_all (\<lambda>it. 0 \<le> hash it \<and> hash it < 4294967296 \<and> list_all scalar (text' it)) items
      \<and> length (blob_of items) < 4294967296)"

text \<open>What an entry reads back as: an empty text comes back as the sentinel.\<close>

definition readback :: "item \<Rightarrow> item" where
  "readback it = \<lparr>hash = hash it, text' = (if text' it = [] then BINARY else text' it)\<rparr>"

text \<open>One decode attempt of the resolver: \<^verbatim>\<open>try: return bts.decode(enc)\<close>, with
  \<open>None\<close> where the attempt raises.\<close>

definition attempt :: "encoding \<Rightarrow> byte list \<Rightarrow> pystr option" where
  "attempt enc bts = (case decode_with enc bts of Inr s \<Rightarrow> Some s | Inl e \<Rightarrow> None)"

section \<open>Text helpers of the Python runtime\<close>

text \<open>
  \<^verbatim>\<open>str.isspace\<close> on one code point; \<^verbatim>\<open>str.strip()\<close> removes exactly these from both
  ends.
\<close>

definition py_isspace :: "nat \<Rightarrow> bool" where
  "py_isspace c =
     ((9 \<le> c \<and> c \<le> 13) \<or> (28 \<le> c \<and> c \<le> 32) \<or> c = 133 \<or> c = 160 \<or> c = 5760
      \<or> (8192 \<le> c \<and> c \<le> 8202) \<or> c = 8232 \<or> c = 8233 \<or> c = 8239 \<or> c = 8287
      \<or> c = 12288)"

definition strip :: "pystr \<Rightarrow> pystr" where
  "strip s = rev (dropWhile py_isspace (rev (dropWhile py_isspace s)))"

text \<open>
  Iterating over a file opened in text mode: a line ends at \<^verbatim>\<open>\n\<close>, \<^verbatim>\<open>\r\n\<close> or \<^verbatim>\<open>\r\<close>,
  each handed over as \<^verbatim>\<open>\n\<close>; text after the last line end is a last line. The argument
  is the decoded content of the file.
\<close>

fun py_lines_from :: "pystr \<Rightarrow> pystr \<Rightarrow> pystr list" where
  "py_lines_from cur [] = (if cur = [] then [] else [cur])"
| "py_lines_from cur (c # cs) =
     (if c = 10 then (cur @ [10]) # py_lines_from [] cs
      else if c = 13 then
        (case cs of
           [] \<Rightarrow> [cur @ [10]]
         | d # r \<Rightarrow>
             if d = 10 then (cur @ [10]) # py_lines_from [] r
             else (cur @ [10]) # py_lines_from [] cs)
      else py_lines_from (cur @ [c]) cs)"

definition py_lines :: "pystr \<Rightarrow> pystr list" where
  "py_lines content = py_lines_from [] content"

text \<open>\<^verbatim>\<open>line.split("=", 1)\<close> on a line that contains \<^verbatim>\<open>=\<close>.\<close>

definition split_eq :: "pystr \<Rightarrow> pystr \<times> pystr" where
  "split_eq line = (takeWhile (\<lambda>c. c \<noteq> 61) line, tl (dropWhile (\<lambda>c. c \<noteq> 61) line))"

subsection \<open>\<^verbatim>\<open>int(s, 16)\<close>\<close>

text \<open>
  The zero digits of the decimal-digit blocks of the Unicode character database (version
  14, as CPython 3.11 carries it); each block holds the ten digits in order.
\<close>

definition nd_zeros :: "nat list" where
  "nd_zeros =
     [48, 1632, 1776, 1984, 2406, 2534, 2662, 2790, 2918, 3046, 3174, 3302, 3430, 3558,
      3664, 3792, 3872, 4160, 4240, 6112, 6160, 6470, 6608, 6784, 6800, 6992, 7088, 7232,
      7248, 42528, 43216, 43264, 43472, 43504, 43600, 44016, 65296, 66720, 68912, 69734,
      69872, 69942, 70096, 70384, 70736, 70864, 71248, 71360, 71472, 71904, 72016, 72784,
      73040, 73120, 92768, 92864, 93008, 120782, 120792, 120802, 120812, 120822, 123200,
      123632, 125264, 130032]"

definition unicode_decimal :: "nat \<Rightarrow> nat option" where
  "unicode_decimal c =
     (case find (\<lambda>z. z \<le> c \<and> c < z + 10) nd_zeros of
        Some z \<Rightarrow> Some (c - z)
      | None \<Rightarrow> None)"

text \<open>
  \<^verbatim>\<open>int\<close> first rewrites a string that is not pure ASCII: white space becomes a blank, a
  decimal digit its ASCII digit, and at the first other character from 127 on the string
  is cut after a \<^verbatim>\<open>?\<close>.
\<close>

fun transform_decimal_and_space :: "pystr \<Rightarrow> pystr" where
  "transform_decimal_and_space [] = []"
| "transform_decimal_and_space (c # cs) =
     (if c < 127 then c # transform_decimal_and_space cs
      else if py_isspace c then 32 # transform_decimal_and_space cs
      else (case unicode_decimal c of
              Some d \<Rightarrow> (48 + d) # transform_decimal_and_space cs
            | None \<Rightarrow> [63]))"

definition int_ascii :: "pystr \<Rightarrow> pystr" where
  "int_ascii s = (if list_all (\<lambda>c. c < 128) s then s else transform_decimal_and_space s)"

text \<open>White space of the C parser: tab to carriage return, and the blank.\<close>

definition c_isspace :: "nat \<Rightarrow> bool" where
  "c_isspace c = ((9 \<le> c \<and> c \<le> 13) \<or> c = 32)"

definition hex_value :: "nat \<Rightarrow> nat option" where
  "hex_value c =
     (if 48 \<le> c \<and> c \<le> 57 then Some (c - 48)
      else if 97 \<le> c \<and> c \<le> 102 then Some (c - 87)
      else if 65 \<le> c \<and> c \<le> 70 then Some (c - 55)
      else None)"

text \<open>
  The digit loop: hexadecimal digits with single underscores between them. \<open>prev\<close> is the
  character before; two underscores in a row or an underscore at the end are an error.
\<close>

fun scan_digits :: "nat \<Rightarrow> pystr \<Rightarrow> nat list \<Rightarrow> (nat list \<times> pystr) option" where
  "scan_digits prev [] ds = (if prev = 95 then None else Some (ds, []))"
| "scan_digits prev (c # cs) ds =
     (if c = 95 then (if prev = 95 then None else scan_digits 95 cs ds)
      else (case hex_value c of
              Some d \<Rightarrow> scan_digits c cs (ds @ [d])
            | None \<Rightarrow> if prev = 95 then None else Some (ds, c # cs)))"

text \<open>After the sign: an optional \<^verbatim>\<open>0x\<close> or \<^verbatim>\<open>0X\<close>, and one underscore allowed after it.\<close>

definition skip_prefix :: "pystr \<Rightarrow> pystr" where
  "skip_prefix b =
     (case b of
        z # x # r \<Rightarrow>
          if z = 48 \<and> (x = 120 \<or> x = 88)
          then (case r of u # r' \<Rightarrow> if u = 95 then r' else r | [] \<Rightarrow> r)
          else b
      | _ \<Rightarrow> b)"

text \<open>\<^verbatim>\<open>int(s, 16)\<close>: \<open>None\<close> stands for \<^verbatim>\<open>ValueError\<close>.\<close>

definition py_int16 :: "pystr \<Rightarrow> int option" where
  "py_int16 s =
     (let a = dropWhile c_isspace (int_ascii s);
          neg = (a \<noteq> [] \<and> hd a = 45);
          b = (if a \<noteq> [] \<and> (hd a = 43 \<or> hd a = 45) then tl a else a);
          c = skip_prefix b
      in if c \<noteq> [] \<and> hd c = 95 then None
         else (case scan_digits 0 c [] of
                 None \<Rightarrow> None
               | Some (ds, rest) \<Rightarrow>
                   if ds = [] then None
                   else if dropWhile c_isspace rest \<noteq> [] then None
                   else Some ((if neg then - 1 else 1)
                              * int (foldl (\<lambda>v d. 16 * v + d) 0 ds))))"

section \<open>The text form of the patch table (\<^verbatim>\<open>load_txt_items\<close>)\<close>

text \<open>What \<^verbatim>\<open>load_txt_items\<close> prints: the two warnings, each with its line number.\<close>

datatype warning = InvalidHash nat | MissingSeparator nat

text \<open>
  The loop over \<^verbatim>\<open>enumerate(f, 1)\<close>. The function returns \<open>items\<close>; the second component
  is what it has printed.
\<close>

fun load_txt_loop ::
  "nat \<Rightarrow> pystr list \<Rightarrow> item list \<Rightarrow> warning list \<Rightarrow> item list \<times> warning list" where
  "load_txt_loop line_num [] items out = (items, out)"
| "load_txt_loop line_num (raw # rest) items out =
     (let line = strip raw in
      if line = [] then load_txt_loop (line_num + 1) rest items out
      else if 61 \<in> set line then
        (case py_int16 (fst (split_eq line)) of
           Some hash_val \<Rightarrow>
             load_txt_loop (line_num + 1) rest
               (items @ [\<lparr>hash = hash_val, text' = snd (split_eq line)\<rparr>]) out
         | None \<Rightarrow> load_txt_loop (line_num + 1) rest items (out @ [InvalidHash line_num]))
      else load_txt_loop (line_num + 1) rest items (out @ [MissingSeparator line_num]))"

definition load_txt_items :: "pystr \<Rightarrow> item list \<times> warning list" where
  "load_txt_items content = load_txt_loop 1 (py_lines content) [] []"

section \<open>Key validation and the interchange loader (\<^verbatim>\<open>main.py\<close>)\<close>

subsection \<open>The regular expressions of the validators\<close>

text \<open>
  The patterns of the source are sequences of a character class with a repetition count:
  \<open>Atom cls lo hi\<close> is \<^verbatim>\<open>[cls]{lo,hi}\<close>, with \<open>None\<close> for no upper bound. A class is a list
  of code point ranges. \<^verbatim>\<open>re.fullmatch\<close> holds when the whole string can be split among
  the atoms.
\<close>

type_synonym cclass = "(nat \<times> nat) list"

datatype atom = Atom cclass nat "nat option"

definition in_class :: "cclass \<Rightarrow> nat \<Rightarrow> bool" where
  "in_class cls c = list_ex (\<lambda>(lo, hi). lo \<le> c \<and> c \<le> hi) cls"

fun fullmatch :: "atom list \<Rightarrow> pystr \<Rightarrow> bool" where
  "fullmatch [] s = (s = [])"
| "fullmatch (Atom cls lo hi # r) s =
     list_ex (\<lambda>k. list_all (in_class cls) (take k s) \<and> fullmatch r (drop k s))
       [lo..<Suc (case hi of None \<Rightarrow> length s | Some h \<Rightarrow> min h (length s))]"

text \<open>\<^verbatim>\<open>0[xX][0-9a-fA-F]{8}\<close>\<close>

definition re_hash :: "atom list" where
  "re_hash = [Atom [(48, 48)] 1 (Some 1), Atom [(120, 120), (88, 88)] 1 (Some 1),
              Atom [(48, 57), (97, 102), (65, 70)] 8 (Some 8)]"

text \<open>\<^verbatim>\<open>[0-9A-Z_]{1,7}\<close>\<close>

definition re_VC :: "atom list" where
  "re_VC = [Atom [(48, 57), (65, 90), (95, 95)] 1 (Some 7)]"

text \<open>\<^verbatim>\<open>[0-9a-fA-F]{1,8}\<close>\<close>

definition re_SA :: "atom list" where
  "re_SA = [Atom [(48, 57), (97, 102), (65, 70)] 1 (Some 8)]"

text \<open>\<^verbatim>\<open>[0-9a-zA-Z_]{1,7}\<close>\<close>

definition re_III :: "atom list" where
  "re_III = [Atom [(48, 57), (97, 122), (65, 90), (95, 95)] 1 (Some 7)]"

text \<open>\<^verbatim>\<open>[A-Za-z0-9_]+\<close>\<close>

definition re_IV_plain :: "atom list" where
  "re_IV_plain = [Atom [(65, 90), (97, 122), (48, 57), (95, 95)] 1 None]"

subsection \<open>\<^verbatim>\<open>_validate_key_static\<close> and its callers\<close>

text \<open>The version string and the file type; every version string other than the four
  named ones behaves alike.\<close>

datatype version = VC | SA | III | IV | OtherVersion

datatype file_type = Gxt | Dat

text \<open>The messages of \<^verbatim>\<open>_get_key_validation_message\<close>, and the empty message.\<close>

datatype message = MsgDat | MsgVC | MsgSA | MsgIII | MsgIV | MsgDefault | MsgEmpty

text \<open>
  \<^verbatim>\<open>key.lower().startswith('0x')\<close>: \<^verbatim>\<open>0\<close> is the one character whose lower case
  starts with \<^verbatim>\<open>0\<close>, and \<^verbatim>\<open>x\<close> and \<^verbatim>\<open>X\<close> are the ones whose lower case starts with
  \<^verbatim>\<open>x\<close>.
\<close>

definition lower_startswith_0x :: "pystr \<Rightarrow> bool" where
  "lower_startswith_0x key =
     (case key of a # b # r \<Rightarrow> a = 48 \<and> (b = 120 \<or> b = 88) | _ \<Rightarrow> False)"

definition validate_key_static :: "pystr \<Rightarrow> version \<Rightarrow> file_type \<Rightarrow> bool" where
  "validate_key_static key version ft =
     (if ft = Dat then fullmatch re_hash key
      else (case version of
              VC \<Rightarrow> fullmatch re_VC key
            | SA \<Rightarrow> fullmatch re_SA key
            | III \<Rightarrow> fullmatch re_III key
            | IV \<Rightarrow>
                if lower_startswith_0x key then fullmatch re_hash key
                else fullmatch re_IV_plain key
            | OtherVersion \<Rightarrow> True))"

definition get_key_validation_message :: "version \<Rightarrow> file_type \<Rightarrow> message" where
  "get_key_validation_message version ft =
     (if ft = Dat then MsgDat
      else (case version of
              VC \<Rightarrow> MsgVC | SA \<Rightarrow> MsgSA | III \<Rightarrow> MsgIII | IV \<Rightarrow> MsgIV
            | OtherVersion \<Rightarrow> MsgDefault))"

definition validate_key_for_import_optimized :: "pystr \<Rightarrow> version \<Rightarrow> bool \<times> message" where
  "validate_key_for_import_optimized key version =
     (if validate_key_static key version Gxt then (True, MsgEmpty)
      else (False, get_key_validation_message version Gxt))"

subsection \<open>\<^verbatim>\<open>_load_standard_txt\<close>\<close>

text \<open>
  A Python dictionary keeps its keys in insertion order: an association list, where
  storing under a present key replaces the value in place and a new key goes to the end.
\<close>

fun dict_set :: "'k \<Rightarrow> 'v \<Rightarrow> ('k \<times> 'v) list \<Rightarrow> ('k \<times> 'v) list" where
  "dict_set k v [] = [(k, v)]"
| "dict_set k v (p # d) = (if fst p = k then (k, v) # d else p # dict_set k v d)"

type_synonym table = "(pystr \<times> pystr) list"
type_synonym archive = "(pystr \<times> table) list"

text \<open>An entry of \<open>invalid_keys\<close>: \<^verbatim>\<open>(key, line_num, file_path, msg)\<close>.\<close>

type_synonym invalid_key = "pystr \<times> nat \<times> pystr \<times> message"

record load_state =
  data' :: archive
  invalid_keys :: "invalid_key list"
  current_table :: "pystr option"

text \<open>\<^verbatim>\<open>line.startswith('[') and line.endswith(']')\<close>, on a line that is not empty.\<close>

definition is_header :: "pystr \<Rightarrow> bool" where
  "is_header line = (hd line = 91 \<and> last line = 93)"

text \<open>
  The body of the inner loop, for one line. \<^verbatim>\<open>data[current_table][key] = ...\<close> raises
  \<^verbatim>\<open>KeyError\<close> when \<open>data\<close> (here \<open>data'\<close>) has no table of that name.
\<close>

definition load_line ::
  "bool \<Rightarrow> version \<Rightarrow> pystr \<Rightarrow> nat \<Rightarrow> pystr \<Rightarrow> load_state \<Rightarrow> pyerror + load_state" where
  "load_line has_tables version file_path line_num raw st =
     (let line = strip raw in
      if line = [] then Inr st
      else if has_tables \<and> is_header line then
        (let t = strip (butlast (tl line)) in
         Inr (st\<lparr>current_table := Some t,
                 data' := (if t \<noteq> [] \<and> t \<notin> set (map fst (data' st))
                          then data' st @ [(t, [])] else data' st)\<rparr>))
      else if 61 \<in> set line \<and> current_table st \<noteq> None then
        (let key = strip (fst (split_eq line)); val = snd (split_eq line) in
         if \<not> fst (validate_key_for_import_optimized key version)
         then Inr (st\<lparr>invalid_keys := invalid_keys st
                     @ [(key, line_num, file_path,
                         snd (validate_key_for_import_optimized key version))]\<rparr>)
         else if key \<noteq> [] then
           (case map_of (data' st) (the (current_table st)) of
              None \<Rightarrow> Inl KeyError
            | Some tbl \<Rightarrow>
                Inr (st\<lparr>data' := dict_set (the (current_table st))
                                 (dict_set key (strip val) tbl) (data' st)\<rparr>))
         else Inr st)
      else Inr st)"

text \<open>The inner loop, over \<^verbatim>\<open>enumerate(f, 1)\<close>.\<close>

fun load_lines ::
  "bool \<Rightarrow> version \<Rightarrow> pystr \<Rightarrow> nat \<Rightarrow> pystr list \<Rightarrow> load_state \<Rightarrow> pyerror + load_state" where
  "load_lines has_tables version file_path line_num [] st = Inr st"
| "load_lines has_tables version file_path line_num (raw # rest) st =
     (case load_line has_tables version file_path line_num raw st of
        Inl e \<Rightarrow> Inl e
      | Inr st' \<Rightarrow> load_lines has_tables version file_path (line_num + 1) rest st')"

text \<open>The outer loop, over \<open>files\<close>: each file is its path and its decoded content (the
  \<^verbatim>\<open>utf-8-sig\<close> codec has removed a byte-order mark).\<close>

fun load_files ::
  "bool \<Rightarrow> version \<Rightarrow> (pystr \<times> pystr) list \<Rightarrow> load_state \<Rightarrow> pyerror + load_state" where
  "load_files has_tables version [] st = Inr st"
| "load_files has_tables version ((file_path, content) # files) st =
     (case load_lines has_tables version file_path 1 (py_lines content) st of
        Inl e \<Rightarrow> Inl e
      | Inr st' \<Rightarrow> load_files has_tables version files st')"

definition MAIN :: pystr where
  "MAIN = lit ''MAIN''"

definition initial_state :: "bool \<Rightarrow> load_state" where
  "initial_state has_tables =
     \<lparr>data' = (if \<not> has_tables then [(MAIN, [])] else []),
      invalid_keys = [],
      current_table = (if \<not> has_tables then Some MAIN else None)\<rparr>"

definition load_standard_txt ::
  "(pystr \<times> pystr) list \<Rightarrow> bool \<Rightarrow> version \<Rightarrow> pyerror + (archive \<times> invalid_key list)" where
  "load_standard_txt files has_tables version =
     (case load_files has_tables version files (initial_state has_tables) of
        Inl e \<Rightarrow> Inl e
      | Inr st \<Rightarrow> Inr (data' st, invalid_keys st))"

subsection \<open>The key patterns and the error list, in the words of the specification\<close>

definition is_digit :: "nat \<Rightarrow> bool" where
  "is_digit c = (48 \<le> c \<and> c \<le> 57)"

definition is_upper :: "nat \<Rightarrow> bool" where
  "is_upper c = (65 \<le> c \<and> c \<le> 90)"

definition is_lower :: "nat \<Rightarrow> bool" where
  "is_lower c = (97 \<le> c \<and> c \<le> 122)"

definition is_hexdigit :: "nat \<Rightarrow> bool" where
  "is_hexdigit c = (is_digit c \<or> (97 \<le> c \<and> c \<le> 102) \<or> (65 \<le> c \<and> c \<le> 70))"

text \<open>A character of a bare identifier: a letter, a digit or the underscore.\<close>

definition is_ident :: "nat \<Rightarrow> bool" where
  "is_ident c = (is_digit c \<or> is_upper c \<or> is_lower c \<or> c = 95)"

text \<open>plain-7: 1 to 7 characters, digits, letters, underscore.\<close>

definition plain7 :: "pystr \<Rightarrow> bool" where
  "plain7 key = (1 \<le> length key \<and> length key \<le> 7 \<and> list_all is_ident key)"

text \<open>hashed-short-upper: 1 to 7 characters, digits, upper-case letters, underscore.\<close>

definition hashed_short_upper :: "pystr \<Rightarrow> bool" where
  "hashed_short_upper key =
     (1 \<le> length key \<and> length key \<le> 7
      \<and> list_all (\<lambda>c. is_digit c \<or> is_upper c \<or> c = 95) key)"

text \<open>hashed-8hex: 1 to 8 hexadecimal digits.\<close>

definition hashed_8hex :: "pystr \<Rightarrow> bool" where
  "hashed_8hex key = (1 \<le> length key \<and> length key \<le> 8 \<and> list_all is_hexdigit key)"

text \<open>\<^verbatim>\<open>0x\<close> followed by 8 hexadecimal digits; \<open>any_case\<close> admits \<^verbatim>\<open>0X\<close> as well.\<close>

definition hash_key :: "bool \<Rightarrow> pystr \<Rightarrow> bool" where
  "hash_key any_case key =
     (length key = 10 \<and> take 1 key = [48]
      \<and> (take 1 (drop 1 key) = [120] \<or> (any_case \<and> take 1 (drop 1 key) = [88]))
      \<and> list_all is_hexdigit (drop 2 key))"

text \<open>plain-or-hash: a bare identifier of any length, or \<^verbatim>\<open>0x\<close> and 8 hexadecimal digits.\<close>

definition plain_or_hash :: "pystr \<Rightarrow> bool" where
  "plain_or_hash key = ((key \<noteq> [] \<and> list_all is_ident key) \<or> hash_key False key)"

text \<open>The number that hexadecimal digits denote.\<close>

definition hex_number :: "pystr \<Rightarrow> nat" where
  "hex_number ds = foldl (\<lambda>v d. 16 * v + d) 0 (map (\<lambda>c. the (hex_value c)) ds)"

text \<open>The key of a \<^verbatim>\<open>key=value\<close> line of the interchange text.\<close>

definition kv_key :: "pystr \<Rightarrow> pystr" where
  "kv_key line = strip (fst (split_eq line))"

text \<open>
  The errors that the interchange text of one file calls for: one entry, with the key, the
  line number counted from 1, the file and the message of the dialect, for each line that
  is not blank, is no table header, holds a \<^verbatim>\<open>=\<close>, lies under a table (\<open>seen\<close>) and has a
  key that fails the key rule of the dialect. \<open>table_seen\<close> tells whether a table is set
  after the lines.
\<close>

fun expected_errors ::
  "bool \<Rightarrow> version \<Rightarrow> pystr \<Rightarrow> bool \<Rightarrow> nat \<Rightarrow> pystr list \<Rightarrow> invalid_key list" where
  "expected_errors has_tables version file_path seen line_num [] = []"
| "expected_errors has_tables version file_path seen line_num (raw # rest) =
     (if strip raw = [] then
        expected_errors has_tables version file_path seen (line_num + 1) rest
      else if has_tables \<and> is_header (strip raw) then
        expected_errors has_tables version file_path True (line_num + 1) rest
      else if 61 \<in> set (strip raw) \<and> seen
              \<and> \<not> validate_key_static (kv_key (strip raw)) version Gxt then
        (kv_key (strip raw), line_num, file_path, get_key_validation_message version Gxt)
        # expected_errors has_tables version file_path seen (line_num + 1) rest
      else expected_errors has_tables version file_path seen (line_num + 1) rest)"

definition table_seen :: "bool \<Rightarrow> bool \<Rightarrow> pystr list \<Rightarrow> bool" where
  "table_seen has_tables seen ls =
     (seen \<or> (has_tables \<and> list_ex (\<lambda>raw. strip raw \<noteq> [] \<and> is_header (strip raw)) ls))"

fun expected_all ::
  "bool \<Rightarrow> version \<Rightarrow> bool \<Rightarrow> (pystr \<times> pystr) list \<Rightarrow> invalid_key list" where
  "expected_all has_tables version seen [] = []"
| "expected_all has_tables version seen ((file_path, content) # files) =
     expected_errors has_tables version file_path seen 1 (py_lines content)
     @ expected_all has_tables version (table_seen has_tables seen (py_lines content)) files"

text \<open>A table header with an empty name, such as \<^verbatim>\<open>[]\<close>.\<close>

definition empty_header :: "pystr \<Rightarrow> bool" where
  "empty_header raw =
     (strip raw \<noteq> [] \<and> is_header (strip raw) \<and> strip (butlast (tl (strip raw))) = [])"

text \<open>Every key stored in the archive is not empty and passes the key rule of the dialect.\<close>

definition archive_keys_valid :: "version \<Rightarrow> archive \<Rightarrow> bool" where
  "archive_keys_valid version d =
     list_all (\<lambda>(t, tbl). list_all (\<lambda>(k, x). validate_key_static k version Gxt \<and> k \<noteq> []) tbl) d"

text \<open>No file holds a table header with an empty name.\<close>

definition no_empty_header :: "(pystr \<times> pystr) list \<Rightarrow> bool" where
  "no_empty_header files =
     list_all (\<lambda>(file_path, content). list_all (\<lambda>raw. \<not> empty_header raw) (py_lines content))
       files"

text \<open>The text stored in the archive under a table and a key, if any.\<close>

definition archive_lookup :: "archive \<Rightarrow> pystr \<Rightarrow> pystr \<Rightarrow> pystr option" where
  "archive_lookup d t k = (case map_of d t of None \<Rightarrow> None | Some tbl \<Rightarrow> map_of tbl k)"

text \<open>The table that is set after the lines: the name in the last table header, if any.\<close>

fun table_after :: "bool \<Rightarrow> pystr option \<Rightarrow> pystr list \<Rightarrow> pystr option" where
  "table_after has_tables cur [] = cur"
| "table_after has_tables cur (raw # rest) =
     table_after has_tables
       (if strip raw \<noteq> [] \<and> has_tables \<and> is_header (strip raw)
        then Some (strip (butlast (tl (strip raw)))) else cur)
       rest"

text \<open>
  The entries that the interchange text calls for, in order: \<open>(table, key, value)\<close> for
  each line that is not blank, is no table header, holds a \<^verbatim>\<open>=\<close>, lies under a table
  and has a key that is not empty and passes the key rule of the dialect; the value is
  what follows the first \<^verbatim>\<open>=\<close>, stripped.
\<close>

fun expected_entries ::
  "bool \<Rightarrow> version \<Rightarrow> pystr option \<Rightarrow> pystr list \<Rightarrow> (pystr \<times> pystr \<times> pystr) list" where
  "expected_entries has_tables version cur [] = []"
| "expected_entries has_tables version cur (raw # rest) =
     (if strip raw = [] then expected_entries has_tables version cur rest
      else if has_tables \<and> is_header (strip raw) then
        expected_entries has_tables version (Some (strip (butlast (tl (strip raw))))) rest
      else if 61 \<in> set (strip raw) \<and> cur \<noteq> None
              \<and> validate_key_static (kv_key (strip raw)) version Gxt
              \<and> kv_key (strip raw) \<noteq> [] then
        (the cur, kv_key (strip raw), strip (snd (split_eq (strip raw))))
        # expected_entries has_tables version cur rest
      else expected_entries has_tables version cur rest)"

fun expected_entries_all ::
  "bool \<Rightarrow> version \<Rightarrow> pystr option \<Rightarrow> (pystr \<times> pystr) list
   \<Rightarrow> (pystr \<times> pystr \<times> pystr) list" where
  "expected_entries_all has_tables version cur [] = []"
| "expected_entries_all has_tables version cur ((file_path, content) # files) =
     expected_entries has_tables version cur (py_lines content)
     @ expected_entries_all has_tables version (table_after has_tables cur (py_lines content))
         files"

text \<open>The last value that a list of entries gives to a table and a key.\<close>

definition last_entry ::
  "(pystr \<times> pystr \<times> pystr) list \<Rightarrow> pystr \<Rightarrow> pystr \<Rightarrow> pystr option" where
  "last_entry es t k = map_of (rev (map (\<lambda>(t, k, x). ((t, k), x)) es)) (t, k)"

section \<open>Facts about the byte-level helpers\<close>

lemma unat_to_byte: "unat (to_byte n) = n mod 256"
  by (simp add: to_byte_def unat_of_nat)

lemma unat_to_byte_small: "n < 256 \<Longrightarrow> unat (to_byte n) = n"
  by (simp add: unat_to_byte)

lemma utf8_decode_1:
  assumes "unat b0 < 128"
  shows "utf8_decode (b0 # r) = cpush (unat b0) (utf8_decode r)"
  using assms by (simp add: Let_def)

lemma utf8_decode_2:
  assumes "194 \<le> unat b0" "unat b0 \<le> 223" "cont b1"
  shows "utf8_decode (b0 # b1 # r) = cpush ((unat b0 - 192) * 64 + (unat b1 - 128)) (utf8_decode r)"
  using assms by (simp add: Let_def)

lemma utf8_decode_3:
  assumes "224 \<le> unat b0" "unat b0 \<le> 239" "cont b1" "cont b2"
    "unat b0 = 224 \<Longrightarrow> 160 \<le> unat b1" "unat b0 = 237 \<Longrightarrow> unat b1 \<le> 159"
  shows "utf8_decode (b0 # b1 # b2 # r) =
    cpush ((unat b0 - 224) * 4096 + (unat b1 - 128) * 64 + (unat b2 - 128)) (utf8_decode r)"
  using assms by (simp add: Let_def)

lemma utf8_decode_4:
  assumes "240 \<le> unat b0" "unat b0 \<le> 244" "cont b1" "cont b2" "cont b3"
    "unat b0 = 240 \<Longrightarrow> 144 \<le> unat b1" "unat b0 = 244 \<Longrightarrow> unat b1 \<le> 143"
  shows "utf8_decode (b0 # b1 # b2 # b3 # r) =
    cpush ((unat b0 - 240) * 262144 + (unat b1 - 128) * 4096 + (unat b2 - 128) * 64
           + (unat b3 - 128)) (utf8_decode r)"
  using assms by (simp add: Let_def)

lemma cont_to_byte: "r < 64 \<Longrightarrow> cont (to_byte (128 + r))"
  by (simp add: cont_def unat_to_byte)

lemma unat_cont_byte: "r < 64 \<Longrightarrow> unat (to_byte (128 + r)) = 128 + r"
  by (simp add: unat_to_byte)

lemma utf8_char_decode:
  assumes "utf8_char c = Inr bs"
  shows "utf8_decode (bs @ r) = cpush c (utf8_decode r)"
proof -
  define q1 where "q1 = c div 64"
  define q2 where "q2 = q1 div 64"
  define q3 where "q3 = q2 div 64"
  have d2: "c div 4096 = q2" by (simp add: q1_def q2_def div_mult2_eq)
  have d3: "c div 262144 = q3" by (simp add: q1_def q2_def q3_def div_mult2_eq)
  have e: "c = 64 * q1 + c mod 64" "q1 = 64 * q2 + q1 mod 64" "q2 = 64 * q3 + q2 mod 64"
    by (simp_all add: q1_def q2_def q3_def)
  have m: "c mod 64 < 64" "q1 mod 64 < 64" "q2 mod 64 < 64" by simp_all
  consider "c < 128" | "128 \<le> c \<and> c < 2048" | "2048 \<le> c \<and> c < 65536" | "65536 \<le> c \<and> c < 1114112" | "1114112 \<le> c"
    by linarith
  then show ?thesis
  proof cases
    case 1
    then have "bs = [to_byte c]" using assms by (simp add: utf8_char_def)
    then show ?thesis using 1 by (simp add: utf8_decode_1 unat_to_byte)
  next
    case 2
    then have bs: "bs = [to_byte (192 + q1), to_byte (128 + c mod 64)]"
      using assms by (simp add: utf8_char_def q1_def)
    have q: "2 \<le> q1" "q1 < 32" using 2 e m by linarith+
    then have u0: "unat (to_byte (192 + q1)) = 192 + q1" by (simp add: unat_to_byte)
    have "utf8_decode (to_byte (192 + q1) # to_byte (128 + c mod 64) # r)
       = cpush ((unat (to_byte (192 + q1)) - 192) * 64 + (unat (to_byte (128 + c mod 64)) - 128)) (utf8_decode r)"
      by (rule utf8_decode_2) (use q u0 in \<open>simp_all add: cont_to_byte\<close>)
    also have "(unat (to_byte (192 + q1)) - 192) * 64 + (unat (to_byte (128 + c mod 64)) - 128) = c"
      using e(1) by (simp add: u0 unat_cont_byte)
    finally show ?thesis by (simp add: bs)
  next
    case 3
    then have ns: "\<not> (55296 \<le> c \<and> c \<le> 57343)" using assms by (auto simp: utf8_char_def split: if_splits)
    have bs: "bs = [to_byte (224 + q2), to_byte (128 + q1 mod 64), to_byte (128 + c mod 64)]"
      using assms 3 ns by (simp add: utf8_char_def q1_def d2)
    have q: "q2 < 16" using 3 e m by linarith
    then have u0: "unat (to_byte (224 + q2)) = 224 + q2" by (simp add: unat_to_byte)
    have g1: "q2 = 0 \<Longrightarrow> 32 \<le> q1 mod 64" using 3 e m by linarith
    have g2: "q2 = 13 \<Longrightarrow> q1 mod 64 < 32" using 3 ns e m by linarith
    have "utf8_decode (to_byte (224 + q2) # to_byte (128 + q1 mod 64) # to_byte (128 + c mod 64) # r)
       = cpush ((unat (to_byte (224 + q2)) - 224) * 4096 + (unat (to_byte (128 + q1 mod 64)) - 128) * 64
                + (unat (to_byte (128 + c mod 64)) - 128)) (utf8_decode r)"
      by (rule utf8_decode_3) (use q u0 g1 g2 in \<open>simp_all add: cont_to_byte unat_cont_byte\<close>)
    also have "(unat (to_byte (224 + q2)) - 224) * 4096 + (unat (to_byte (128 + q1 mod 64)) - 128) * 64
                + (unat (to_byte (128 + c mod 64)) - 128) = c"
      using e by (simp add: u0 unat_cont_byte)
    finally show ?thesis by (simp add: bs)
  next
    case 4
    have bs: "bs = [to_byte (240 + q3), to_byte (128 + q2 mod 64), to_byte (128 + q1 mod 64),
                    to_byte (128 + c mod 64)]"
      using assms 4 by (simp add: utf8_char_def q1_def d2 d3)
    have q: "q3 < 5" using 4 e m by linarith
    then have u0: "unat (to_byte (240 + q3)) = 240 + q3" by (simp add: unat_to_byte)
    have g1: "q3 = 0 \<Longrightarrow> 16 \<le> q2 mod 64" using 4 e m by linarith
    have g2: "q3 = 4 \<Longrightarrow> q2 mod 64 < 16" using 4 e m by linarith
    have "utf8_decode (to_byte (240 + q3) # to_byte (128 + q2 mod 64) # to_byte (128 + q1 mod 64)
                        # to_byte (128 + c mod 64) # r)
       = cpush ((unat (to_byte (240 + q3)) - 240) * 262144 + (unat (to_byte (128 + q2 mod 64)) - 128) * 4096
                + (unat (to_byte (128 + q1 mod 64)) - 128) * 64
                + (unat (to_byte (128 + c mod 64)) - 128)) (utf8_decode r)"
      by (rule utf8_decode_4) (use q u0 g1 g2 in \<open>simp_all add: cont_to_byte unat_cont_byte\<close>)
    also have "(unat (to_byte (240 + q3)) - 240) * 262144 + (unat (to_byte (128 + q2 mod 64)) - 128) * 4096
                + (unat (to_byte (128 + q1 mod 64)) - 128) * 64
                + (unat (to_byte (128 + c mod 64)) - 128) = c"
      using e by (simp add: u0 unat_cont_byte)
    finally show ?thesis by (simp add: bs)
  next
    case 5
    then show ?thesis using assms by (simp add: utf8_char_def)
  qed
qed

lemma length_le32: "length (le32 n) = 4"
  by (simp add: le32_def)

lemma le32_val_le32:
  assumes "n < 4294967296"
  shows "le32_val (le32 n) = n"
proof -
  define a where "a = n div 256"
  define b where "b = a div 256"
  define c where "c = b div 256"
  have b': "n div 65536 = b" by (simp add: a_def b_def div_mult2_eq)
  have c': "n div 16777216 = c" by (simp add: a_def b_def c_def div_mult2_eq)
  have "c < 256" using assms unfolding c'[symmetric] by (simp add: div_less_iff_less_mult)
  then have c'': "c mod 256 = c" by simp
  have "n = n mod 256 + 256 * a" "a = a mod 256 + 256 * b" "b = b mod 256 + 256 * c"
    by (simp_all add: a_def b_def c_def)
  then have "n mod 256 + 256 * (a mod 256) + 65536 * (b mod 256) + 16777216 * c = n"
    by linarith
  then show ?thesis
    by (simp add: le32_def le32_val_def unat_to_byte b' c' c'' a_def[symmetric])
qed

lemma utf8_char_Inr_iff: "(\<exists>bs. utf8_char c = Inr bs) \<longleftrightarrow> scalar c"
  by (auto simp: utf8_char_def scalar_def)

lemma utf8_encode_Inr_iff: "(\<exists>b. utf8_encode t = Inr b) \<longleftrightarrow> list_all scalar t"
proof (induction t)
  case Nil
  then show ?case by simp
next
  case (Cons c t)
  show ?case
  proof (cases "utf8_char c")
    case (Inl e)
    then have "\<not> scalar c" using utf8_char_Inr_iff [of c] by auto
    then show ?thesis using Inl by simp
  next
    case (Inr bs)
    then have "scalar c" using utf8_char_Inr_iff [of c] by auto
    then show ?thesis using Inr Cons by (auto split: sum.splits)
  qed
qed

lemma utf8_encode_bytes: "list_all scalar t \<Longrightarrow> utf8_encode t = Inr (utf8_bytes t)"
  using utf8_encode_Inr_iff [of t] by (auto simp: utf8_bytes_def)

lemma utf8_roundtrip: "utf8_encode t = Inr b \<Longrightarrow> utf8_decode b = Inr t"
proof (induction t arbitrary: b)
  case Nil
  then show ?case by simp
next
  case (Cons c t)
  from Cons.prems obtain bs r where c: "utf8_char c = Inr bs" and r: "utf8_encode t = Inr r"
    and b: "b = bs @ r"
    by (auto split: sum.splits)
  show ?case using Cons.IH [OF r] by (simp add: b utf8_char_decode [OF c] cpush_def)
qed

lemma utf8_bytes_Nil [simp]: "utf8_bytes [] = []"
  by (simp add: utf8_bytes_def)

lemma utf8_bytes_Cons:
  "list_all scalar (c # t) \<Longrightarrow> utf8_bytes (c # t) = utf8_bytes [c] @ utf8_bytes t"
  using utf8_encode_bytes [of t] utf8_char_Inr_iff [of c]
  by (auto simp: utf8_bytes_def split: sum.splits)

lemma to_byte_eq_0_iff: "n < 256 \<Longrightarrow> to_byte n = 0 \<longleftrightarrow> n = 0"
proof
  assume "n < 256" "to_byte n = 0"
  then have "unat (to_byte n) = 0" by simp
  then show "n = 0" using \<open>n < 256\<close> by (simp add: unat_to_byte)
qed (simp add: to_byte_def)

lemma utf8_char_nonzero:
  assumes "utf8_char c = Inr bs" "c \<noteq> 0"
  shows "0 \<notin> set bs"
proof -
  have d: "c < 2048 \<Longrightarrow> c div 64 < 32" "c < 65536 \<Longrightarrow> c div 4096 < 16"
    "c < 1114112 \<Longrightarrow> c div 262144 < 5"
    by (simp_all add: div_less_iff_less_mult)
  have m: "c mod 64 < 64" "c div 64 mod 64 < 64" "c div 4096 mod 64 < 64" by simp_all
  show ?thesis
    using assms d m
    by (auto simp: utf8_char_def to_byte_eq_0_iff split: if_splits)
qed

lemma utf8_char_nonempty: "utf8_char c = Inr bs \<Longrightarrow> bs \<noteq> []"
  by (auto simp: utf8_char_def split: if_splits)

lemma utf8_encode_no_nul:
  "utf8_encode t = Inr b \<Longrightarrow> 0 \<notin> set t \<Longrightarrow> 0 \<notin> set b"
proof (induction t arbitrary: b)
  case Nil
  then show ?case by simp
next
  case (Cons c t)
  from Cons.prems obtain bs r where c: "utf8_char c = Inr bs" and r: "utf8_encode t = Inr r"
    and b: "b = bs @ r"
    by (auto split: sum.splits)
  from Cons.prems have "c \<noteq> 0" "0 \<notin> set t" by auto
  then show ?case using utf8_char_nonzero [OF c] Cons.IH [OF r] by (simp add: b)
qed

lemma utf8_encode_nonempty: "utf8_encode t = Inr b \<Longrightarrow> t \<noteq> [] \<Longrightarrow> b \<noteq> []"
  by (cases t) (auto split: sum.splits dest: utf8_char_nonempty)

lemma decode_bytes_utf8: "utf8_encode t = Inr b \<Longrightarrow> decode_bytes b = t"
  by (simp add: decode_bytes_def encodings_def utf8_roundtrip)

subsection \<open>What \<^verbatim>\<open>dump_whm_table\<close> writes\<close>

lemma blob_of_Nil [simp]: "blob_of [] = []"
  by (simp add: blob_of_def)

lemma blob_of_Cons: "blob_of (it # its) = utf8_bytes (text' it) @ [0] @ blob_of its"
  by (simp add: blob_of_def)

lemma blob_of_append: "blob_of (xs @ ys) = blob_of xs @ blob_of ys"
  by (simp add: blob_of_def)

lemma offset_of_0 [simp]: "offset_of items 0 = 0"
  by (simp add: offset_of_def)

lemma offset_of_Suc:
  "offset_of (it # its) (Suc k) = length (utf8_bytes (text' it)) + 1 + offset_of its k"
  by (simp add: offset_of_def blob_of_Cons)

lemma map_upt_Suc_shift: "map f [0..<Suc n] = f 0 # map (\<lambda>k. f (Suc k)) [0..<n]"
  by (simp add: upt_conv_Cons map_Suc_upt [symmetric] del: upt_Suc)

lemma dump_loop_ok:
  "list_all (\<lambda>it. list_all scalar (text' it)) its \<Longrightarrow>
   dump_loop its blob offs =
     Inr (blob @ blob_of its, offs @ map (\<lambda>k. length blob + offset_of its k) [0..<length its])"
proof (induction its arbitrary: blob offs)
  case Nil
  then show ?case by simp
next
  case (Cons it its)
  then have enc: "utf8_encode (text' it) = Inr (utf8_bytes (text' it))"
    and rest: "list_all (\<lambda>it. list_all scalar (text' it)) its"
    by (simp_all add: utf8_encode_bytes)
  show ?case
    by (simp add: enc Cons.IH [OF rest] blob_of_Cons map_upt_Suc_shift offset_of_Suc
        del: upt_Suc)
qed

lemma dump_loop_Inr:
  "dump_loop its blob offs = Inr r \<Longrightarrow> list_all (\<lambda>it. list_all scalar (text' it)) its"
proof (induction its arbitrary: blob offs)
  case Nil
  then show ?case by simp
next
  case (Cons it its)
  then show ?case
    using utf8_encode_Inr_iff [of "text' it"] by (auto split: sum.splits)
qed

lemma pack_u32_ok: "n < 4294967296 \<Longrightarrow> pack_u32 (int n) = Inr (le32 n)"
  by (simp add: pack_u32_def)

lemma header_loop_ok:
  "list_all (\<lambda>k. 0 \<le> hash (h k) \<and> hash (h k) < 4294967296 \<and> off k < 4294967296) ks \<Longrightarrow>
   header_loop (map (\<lambda>k. (h k, off k)) ks) hdr =
     Inr (hdr @ concat (map (\<lambda>k. le32 (nat (hash (h k))) @ le32 (off k)) ks))"
proof (induction ks arbitrary: hdr)
  case Nil
  then show ?case by simp
next
  case (Cons k ks)
  then show ?case by (simp add: pack_entry_def pack_u32_def)
qed

lemma zip_map_upt:
  "zip xs (map f [0..<length xs]) = map (\<lambda>k. (xs ! k, f k)) [0..<length xs]"
  by (rule nth_equalityI) simp_all

lemma length_blob_of_ge: "length its \<le> length (blob_of its)"
  by (induction its) (simp_all add: blob_of_Cons)

lemma offset_of_le: "offset_of its k \<le> length (blob_of its)"
proof -
  have "blob_of its = blob_of (take k its) @ blob_of (drop k its)"
    by (simp add: blob_of_append [symmetric])
  then show ?thesis by (simp add: offset_of_def)
qed

lemma dump_whm_table_ok:
  assumes "writable items"
  shows "dump_whm_table items = Inr (whm_layout items)"
proof -
  from assms have enc: "list_all (\<lambda>it. list_all scalar (text' it)) items"
    and hs: "\<forall>it \<in> set items. 0 \<le> hash it \<and> hash it < 4294967296"
    and sz: "length (blob_of items) < 4294967296"
    by (auto simp: writable_def list_all_iff)
  have cnt: "length items < 4294967296"
    using length_blob_of_ge [of items] sz by linarith
  have offs: "\<And>k. offset_of items k < 4294967296"
    using offset_of_le sz by (meson le_less_trans)
  have hl: "header_loop (zip items (map (\<lambda>k. 0 + offset_of items k) [0..<length items]))
              (le32 (length items)) =
            Inr (le32 (length items)
                 @ concat (map (\<lambda>k. le32 (nat (hash (items ! k))) @ le32 (offset_of items k))
                               [0..<length items]))"
    unfolding zip_map_upt add_0
    by (rule header_loop_ok) (use hs offs in \<open>simp add: list_all_iff\<close>)
  show ?thesis
    using hl by (simp add: dump_whm_table_def dump_loop_ok [OF enc] pack_u32_ok [OF cnt] pack_u32_ok [OF sz]
        whm_layout_def)
qed

lemma header_loop_Inr:
  "header_loop (map (\<lambda>k. (h k, off k)) ks) hdr = Inr r \<Longrightarrow>
   list_all (\<lambda>k. 0 \<le> hash (h k) \<and> hash (h k) < 4294967296) ks"
proof (induction ks arbitrary: hdr)
  case Nil
  then show ?case by simp
next
  case (Cons k ks)
  then show ?case
    by (auto simp: pack_entry_def pack_u32_def split: sum.splits if_splits)
qed

lemma dump_whm_table_Inr:
  assumes "dump_whm_table items = Inr out"
  shows "writable items"
proof -
  from assms obtain r where r: "dump_loop items [] [] = Inr r"
    by (auto simp: dump_whm_table_def split: sum.splits)
  then have enc: "list_all (\<lambda>it. list_all scalar (text' it)) items"
    by (rule dump_loop_Inr)
  have dl: "dump_loop items [] [] =
      Inr (blob_of items, map (offset_of items) [0..<length items])"
    using dump_loop_ok [OF enc, of "[]" "[]"] by simp
  have z: "zip items (map (offset_of items) [0..<length items]) =
      map (\<lambda>k. (items ! k, offset_of items k)) [0..<length items]"
    by (rule zip_map_upt)
  from assms obtain cb hd where
    hl: "header_loop (map (\<lambda>k. (items ! k, offset_of items k)) [0..<length items]) cb = Inr hd"
    and sz: "length (blob_of items) < 4294967296"
    by (auto simp: dump_whm_table_def dl z pack_u32_def split: sum.splits if_splits)
  from header_loop_Inr [OF hl]
  have "\<forall>k < length items. 0 \<le> hash (items ! k) \<and> hash (items ! k) < 4294967296"
    by (simp add: list_all_iff)
  then have "\<forall>it \<in> set items. 0 \<le> hash it \<and> hash it < 4294967296"
    by (metis in_set_conv_nth)
  then show ?thesis
    using enc sz by (simp add: writable_def list_all_iff)
qed

subsection \<open>What \<^verbatim>\<open>parse_whm_table\<close> reads\<close>

lemma unpack_u32_at:
  "n < 4294967296 \<Longrightarrow> unpack_u32 (pre @ le32 n @ post) (length pre) = Inr n"
  by (simp add: unpack_u32_def length_le32 le32_val_le32)

lemma unpack_entry_at:
  "h < 4294967296 \<Longrightarrow> off < 4294967296 \<Longrightarrow>
   unpack_entry (pre @ le32 h @ le32 off @ post) (length pre) = Inr (h, off)"
proof -
  assume h: "h < 4294967296" and off: "off < 4294967296"
  have "drop (length pre + 4) (pre @ le32 h @ le32 off @ post) = le32 off @ post"
    by (simp add: length_le32)
  then show ?thesis
    by (simp add: unpack_entry_def length_le32 le32_val_le32 h off)
qed

lemma read_entries_loop_ok:
  "list_all (\<lambda>(h, off). h < 4294967296 \<and> off < 4294967296) es \<Longrightarrow>
   read_entries_loop (length es)
     (pre @ concat (map (\<lambda>(h, off). le32 h @ le32 off) es) @ post) (length pre) acc
   = Inr (acc @ es, length pre + 8 * length es)"
proof (induction es arbitrary: pre acc)
  case Nil
  then show ?case by simp
next
  case (Cons e es)
  obtain h off where e: "e = (h, off)" by (cases e)
  from Cons.prems have h: "h < 4294967296" and off: "off < 4294967296"
    and rest: "list_all (\<lambda>(h, off). h < 4294967296 \<and> off < 4294967296) es"
    by (simp_all add: e)
  let ?tail = "concat (map (\<lambda>(h, off). le32 h @ le32 off) es) @ post"
  have ih: "read_entries_loop (length es) ((pre @ le32 h @ le32 off) @ ?tail)
              (length (pre @ le32 h @ le32 off)) (acc @ [(h, off)])
            = Inr ((acc @ [(h, off)]) @ es, length (pre @ le32 h @ le32 off) + 8 * length es)"
    by (rule Cons.IH [OF rest])
  have u: "unpack_entry (pre @ le32 h @ le32 off @ ?tail) (length pre) = Inr (h, off)"
    by (rule unpack_entry_at [OF h off])
  show ?case using ih u by (simp add: e length_le32)
qed

lemma scan_nul_run:
  assumes "0 \<notin> set s" "i \<le> length s"
  shows "scan_nul (A @ s @ 0 # B) (length A + length s + 1 + length B) (length A + i)
         = Inr (length A + length s)"
  using assms
proof (induction "length s - i" arbitrary: i)
  case 0
  then have i: "i = length s" by simp
  show ?case
    by (subst scan_nul.simps) (simp add: i nth_append)
next
  case (Suc d)
  then have i: "i < length s" by simp
  then have nz: "(A @ s @ 0 # B) ! (length A + i) \<noteq> 0"
    using Suc.prems(1) by (simp add: nth_append) (metis nth_mem)
  have ih: "scan_nul (A @ s @ 0 # B) (length A + length s + 1 + length B) (length A + Suc i)
      = Inr (length A + length s)"
    by (rule Suc.hyps(1)) (use Suc i in simp_all)
  show ?case
    by (subst scan_nul.simps) (use i nz ih in simp)
qed

lemma utf8_bytes_props:
  assumes "list_all scalar t" "0 \<notin> set t"
  shows "0 \<notin> set (utf8_bytes t)" "utf8_bytes t = [] \<longleftrightarrow> t = []"
    "decode_bytes (utf8_bytes t) = t"
proof -
  have e: "utf8_encode t = Inr (utf8_bytes t)" by (rule utf8_encode_bytes [OF assms(1)])
  show "0 \<notin> set (utf8_bytes t)" by (rule utf8_encode_no_nul [OF e assms(2)])
  show "utf8_bytes t = [] \<longleftrightarrow> t = []" using utf8_encode_nonempty [OF e] by auto
  show "decode_bytes (utf8_bytes t) = t" by (rule decode_bytes_utf8 [OF e])
qed

lemma entry_text_at:
  assumes enc: "list_all scalar (text' (items ! k))"
    and nul: "0 \<notin> set (text' (items ! k))"
    and k: "k < length items"
  shows "entry_text (blob_of items) (length (blob_of items)) (offset_of items k)
         = Inr (text' (readback (items ! k)))"
proof -
  let ?A = "blob_of (take k items)"
  let ?s = "utf8_bytes (text' (items ! k))"
  let ?B = "blob_of (drop (Suc k) items)"
  have "items = take k items @ items ! k # drop (Suc k) items"
    using k by (simp add: id_take_nth_drop)
  then have "blob_of items = blob_of (take k items @ items ! k # drop (Suc k) items)"
    by simp
  then have blob: "blob_of items = ?A @ ?s @ 0 # ?B"
    by (simp add: blob_of_append blob_of_Cons)
  have len: "length (blob_of items) = length ?A + length ?s + 1 + length ?B"
    by (simp add: blob)
  have off: "offset_of items k = length ?A" by (simp add: offset_of_def)
  have scan: "scan_nul (?A @ ?s @ 0 # ?B) (length ?A + length ?s + 1 + length ?B) (length ?A + 0)
      = Inr (length ?A + length ?s)"
    by (rule scan_nul_run) (use utf8_bytes_props(1) [OF enc nul] in simp_all)
  have sl: "slice (?A @ ?s @ 0 # ?B) (length ?A) (length ?A + length ?s) = ?s"
    by (simp add: slice_def)
  have eb: "entry_bytes (blob_of items) (length (blob_of items)) (offset_of items k) = Inr ?s"
    unfolding off len unfolding blob using scan sl by (simp add: entry_bytes_def)
  show ?thesis
    using utf8_bytes_props(2,3) [OF enc nul]
    by (simp add: entry_text_def eb readback_def)
qed

lemma parse_loop_map:
  "(\<And>k. k \<in> set ks \<Longrightarrow> entry_text blob n (off k) = Inr (t k)) \<Longrightarrow>
   parse_loop blob n (map (\<lambda>k. (h k, off k)) ks) acc
   = Inr (acc @ map (\<lambda>k. \<lparr>hash = int (h k), text' = t k\<rparr>) ks)"
proof (induction ks arbitrary: acc)
  case Nil
  then show ?case by simp
next
  case (Cons k ks)
  then show ?case by simp
qed

lemma length_entries_bytes:
  "length (concat (map (\<lambda>(h, off). le32 h @ le32 off) es)) = 8 * length es"
  by (induction es) (auto simp: length_le32)

lemma read_entries_layout:
  assumes "writable items"
  shows "read_entries (whm_layout items) =
     Inr (map (\<lambda>k. (nat (hash (items ! k)), offset_of items k)) [0..<length items],
          8 * length items + 8, length (blob_of items))"
proof -
  let ?es = "map (\<lambda>k. (nat (hash (items ! k)), offset_of items k)) [0..<length items]"
  from assms have hs: "\<forall>it \<in> set items. 0 \<le> hash it \<and> hash it < 4294967296"
    and sz: "length (blob_of items) < 4294967296"
    by (auto simp: writable_def list_all_iff)
  have cnt: "length items < 4294967296"
    using length_blob_of_ge [of items] sz by linarith
  have offs: "\<And>k. offset_of items k < 4294967296"
    using offset_of_le sz by (meson le_less_trans)
  define E where "E = concat (map (\<lambda>(h, off). le32 h @ le32 off) ?es)"
  have lenE: "length E = 8 * length items"
    unfolding E_def using length_entries_bytes [of ?es] by simp
  have lay: "whm_layout items =
      le32 (length items) @ E @ (le32 (length (blob_of items)) @ blob_of items)"
    by (simp add: whm_layout_def E_def comp_def)
  have ok: "list_all (\<lambda>(h, off). h < 4294967296 \<and> off < 4294967296) ?es"
  proof -
    have "\<And>k. k < length items \<Longrightarrow> nat (hash (items ! k)) < 4294967296"
      using hs nth_mem [of _ items] by fastforce
    then show ?thesis using offs by (simp add: list_all_iff)
  qed
  have r1: "read_u32 (whm_layout items) 0 = Inr (length items, 4)"
    using unpack_u32_at [OF cnt, of "[]"] by (simp add: read_u32_def lay)
  have "read_entries_loop (length ?es)
      (le32 (length items) @ E @ (le32 (length (blob_of items)) @ blob_of items))
      (length (le32 (length items))) [] = Inr ([] @ ?es, length (le32 (length items)) + 8 * length ?es)"
    unfolding E_def by (rule read_entries_loop_ok [OF ok])
  then have r2: "read_entries_loop (length items) (whm_layout items) 4 [] =
      Inr (?es, 4 + 8 * length items)"
    by (simp add: lay length_le32)
  have "unpack_u32 ((le32 (length items) @ E) @ le32 (length (blob_of items)) @ blob_of items)
      (length (le32 (length items) @ E)) = Inr (length (blob_of items))"
    by (rule unpack_u32_at [OF sz])
  then have r3: "read_u32 (whm_layout items) (4 + 8 * length items) =
      Inr (length (blob_of items), 4 + 8 * length items + 4)"
    by (simp add: read_u32_def lay length_le32 lenE)
  show ?thesis
    by (simp add: read_entries_def r1 r2 r3)
qed

lemma parse_layout:
  assumes w: "writable items"
    and nul: "\<forall>it \<in> set items. 0 \<notin> set (text' it)"
  shows "parse_whm_table (whm_layout items) = Inr (map readback items)"
proof -
  let ?n = "length items"
  let ?blob = "blob_of items"
  from w have enc: "\<forall>it \<in> set items. list_all scalar (text' it)"
    and hs: "\<forall>it \<in> set items. 0 \<le> hash it"
    by (auto simp: writable_def list_all_iff)
  have cut: "slice (whm_layout items) (8 * ?n + 8) (8 * ?n + 8 + length ?blob) = ?blob"
  proof -
    have "length (concat (map (\<lambda>k. le32 (nat (hash (items ! k))) @ le32 (offset_of items k))
                   [0..<?n])) = 8 * ?n"
      using length_entries_bytes
        [of "map (\<lambda>k. (nat (hash (items ! k)), offset_of items k)) [0..<?n]"]
      by (simp add: comp_def)
    then show ?thesis by (simp add: slice_def whm_layout_def length_le32)
  qed
  have each: "\<And>k. k \<in> set [0..<?n] \<Longrightarrow>
      entry_text ?blob (length ?blob) (offset_of items k) = Inr (text' (readback (items ! k)))"
    using enc nul by (simp add: entry_text_at)
  have "parse_loop ?blob (length ?blob)
          (map (\<lambda>k. (nat (hash (items ! k)), offset_of items k)) [0..<?n]) []
        = Inr ([] @ map (\<lambda>k. \<lparr>hash = int (nat (hash (items ! k))),
                                 text' = text' (readback (items ! k))\<rparr>) [0..<?n])"
    by (rule parse_loop_map) (rule each)
  also have "map (\<lambda>k. \<lparr>hash = int (nat (hash (items ! k))),
                         text' = text' (readback (items ! k))\<rparr>) [0..<?n]
             = map readback items"
    using hs by (intro nth_equalityI) (simp_all add: readback_def)
  finally show ?thesis
    by (simp add: parse_whm_table_def read_entries_layout [OF w] cut)
qed

subsection \<open>Reading an arbitrary buffer\<close>

lemma scan_nul_total:
  "n \<le> length blob \<Longrightarrow> \<exists>j. scan_nul blob n off = Inr j"
proof (induction blob n off rule: scan_nul.induct)
  case (1 blob blob_size j)
  show ?case
  proof (cases "j < blob_size \<and> blob ! j \<noteq> 0")
    case True
    then have "j < length blob" using "1.prems" by simp
    with True "1.IH" "1.prems" obtain j' where "scan_nul blob blob_size (j + 1) = Inr j'"
      by blast
    then show ?thesis
      by (subst scan_nul.simps) (use True \<open>j < length blob\<close> in simp)
  next
    case False
    then show ?thesis
      using "1.prems" by (subst scan_nul.simps) auto
  qed
qed

lemma scan_nul_Inl: "scan_nul blob n off = Inl e \<Longrightarrow> e = IndexError \<and> length blob < n"
proof (induction blob n off rule: scan_nul.induct)
  case (1 blob blob_size j)
  have unf: "scan_nul blob blob_size j =
     (if j < blob_size then
        (if j < length blob then
           (if blob ! j \<noteq> 0 then scan_nul blob blob_size (j + 1) else Inr j)
         else Inl IndexError)
      else Inr j)"
    by (rule scan_nul.simps)
  show ?case
  proof (cases "j < blob_size")
    case False
    then show ?thesis using "1.prems" unf by simp
  next
    case lt: True
    show ?thesis
    proof (cases "j < length blob")
      case False
      then show ?thesis using "1.prems" unf lt by simp
    next
      case True
      show ?thesis
      proof (cases "blob ! j = 0")
        case z: True
        then show ?thesis using "1.prems" unf lt True by simp
      next
        case False
        then have "scan_nul blob blob_size (j + 1) = Inl e"
          using "1.prems" unf lt True by simp
        then show ?thesis using "1.IH" lt True False by blast
      qed
    qed
  qed
qed

lemma scan_nul_at_nul:
  "off < n \<Longrightarrow> off < length blob \<Longrightarrow> blob ! off = 0 \<Longrightarrow> scan_nul blob n off = Inr off"
  by (subst scan_nul.simps) simp

lemma entry_text_out_of_range: "n \<le> off \<Longrightarrow> entry_text blob n off = Inr BINARY"
  by (simp add: entry_text_def entry_bytes_def)

lemma entry_text_at_nul:
  "off < n \<Longrightarrow> off < length blob \<Longrightarrow> blob ! off = 0 \<Longrightarrow> entry_text blob n off = Inr BINARY"
  by (simp add: entry_text_def entry_bytes_def scan_nul_at_nul slice_def)

lemma entry_text_total: "n \<le> length blob \<Longrightarrow> \<exists>t. entry_text blob n off = Inr t"
proof -
  assume "n \<le> length blob"
  then obtain j where "scan_nul blob n off = Inr j"
    using scan_nul_total by blast
  then show ?thesis by (simp add: entry_text_def entry_bytes_def)
qed

lemma entry_text_Inl:
  assumes "entry_text blob n off = Inl e"
  shows "e = IndexError \<and> off < n \<and> length blob < n"
proof (cases "off < n")
  case False
  then show ?thesis using assms by (simp add: entry_text_def entry_bytes_def)
next
  case True
  show ?thesis
  proof (cases "scan_nul blob n off")
    case (Inl e')
    then have "e' = e" using assms True by (simp add: entry_text_def entry_bytes_def)
    then show ?thesis using scan_nul_Inl [of blob n off e] Inl True by simp
  next
    case (Inr j)
    then show ?thesis using assms True by (simp add: entry_text_def entry_bytes_def)
  qed
qed

lemma parse_loop_total:
  "(\<And>h off. (h, off) \<in> set es \<Longrightarrow> \<exists>t. entry_text blob n off = Inr t) \<Longrightarrow>
   \<exists>rs. parse_loop blob n es acc = Inr rs"
proof (induction es arbitrary: acc)
  case Nil
  then show ?case by simp
next
  case (Cons e es)
  obtain h off where e: "e = (h, off)" by (cases e)
  from Cons.prems [of h off] obtain t where t: "entry_text blob n off = Inr t"
    by (auto simp: e)
  have "\<exists>rs. parse_loop blob n es (acc @ [\<lparr>hash = int h, text' = t\<rparr>]) = Inr rs"
    by (rule Cons.IH) (use Cons.prems in auto)
  then show ?case by (simp add: e t)
qed

lemma parse_loop_Inr:
  "parse_loop blob n es acc = Inr rs \<Longrightarrow>
   length rs = length acc + length es \<and> take (length acc) rs = acc \<and>
   (\<forall>i < length es. hash (rs ! (length acc + i)) = int (fst (es ! i)) \<and>
      entry_text blob n (snd (es ! i)) = Inr (text' (rs ! (length acc + i))))"
proof (induction es arbitrary: acc)
  case Nil
  then show ?case by simp
next
  case (Cons e es)
  obtain h off where e: "e = (h, off)" by (cases e)
  from Cons.prems obtain t where t: "entry_text blob n off = Inr t"
    and r: "parse_loop blob n es (acc @ [\<lparr>hash = int h, text' = t\<rparr>]) = Inr rs"
    by (auto simp: e split: sum.splits)
  from Cons.IH [OF r] have len: "length rs = length acc + 1 + length es"
    and tk: "take (length acc + 1) rs = acc @ [\<lparr>hash = int h, text' = t\<rparr>]"
    and rest: "\<forall>i < length es. hash (rs ! (length acc + 1 + i)) = int (fst (es ! i)) \<and>
      entry_text blob n (snd (es ! i)) = Inr (text' (rs ! (length acc + 1 + i)))"
    by simp_all
  have rs: "rs = (acc @ [\<lparr>hash = int h, text' = t\<rparr>]) @ drop (length acc + 1) rs"
    by (metis tk append_take_drop_id)
  have tk': "take (length acc) rs = acc"
    by (subst rs) simp
  have here: "rs ! length acc = \<lparr>hash = int h, text' = t\<rparr>"
    by (subst rs) (simp add: nth_append)
  have "hash (rs ! (length acc + i)) = int (fst ((e # es) ! i)) \<and>
      entry_text blob n (snd ((e # es) ! i)) = Inr (text' (rs ! (length acc + i)))"
    if "i < length (e # es)" for i
  proof (cases i)
    case 0
    then show ?thesis by (simp add: here e t)
  next
    case (Suc i')
    then show ?thesis using rest that by simp
  qed
  then show ?case using len tk' by auto
qed

lemma parse_loop_Inl:
  "parse_loop blob n es acc = Inl e \<Longrightarrow> \<exists>i < length es. entry_text blob n (snd (es ! i)) = Inl e"
proof (induction es arbitrary: acc)
  case Nil
  then show ?case by simp
next
  case (Cons x es)
  obtain h off where x: "x = (h, off)" by (cases x)
  show ?case
  proof (cases "entry_text blob n off")
    case (Inl e')
    then have "e' = e" using Cons.prems by (simp add: x)
    then have "entry_text blob n (snd ((x # es) ! 0)) = Inl e" using Inl by (simp add: x)
    then show ?thesis by blast
  next
    case (Inr t)
    then have "parse_loop blob n es (acc @ [\<lparr>hash = int h, text' = t\<rparr>]) = Inl e"
      using Cons.prems by (simp add: x)
    from Cons.IH [OF this] obtain i where "i < length es"
      "entry_text blob n (snd (es ! i)) = Inl e" by blast
    then have "Suc i < length (x # es)" "entry_text blob n (snd ((x # es) ! Suc i)) = Inl e"
      by simp_all
    then show ?thesis by blast
  qed
qed

lemma length_slice_full: "i + n \<le> length b \<Longrightarrow> length (slice b i (i + n)) = n"
  by (simp add: slice_def)

lemma length_slice_le: "length (slice b i (i + n)) \<le> n"
  by (simp add: slice_def)

subsection \<open>Evaluation on concrete buffers\<close>

lemma read_entries_loop_unfold:
  "read_entries_loop n data off entries =
     (if n = 0 then Inr (entries, off)
      else (case unpack_entry data off of
              Inl e \<Rightarrow> Inl e
            | Inr ho \<Rightarrow> read_entries_loop (n - 1) data (off + 8) (entries @ [ho])))"
  by (cases n) (simp_all split: sum.split)

lemmas whm_eval =
  dump_whm_table_def parse_whm_table_def read_entries_def read_u32_def unpack_u32_def
  unpack_entry_def le32_val_def le32_def to_byte_def pack_u32_def pack_entry_def
  read_entries_loop_unfold entry_text_def entry_bytes_def scan_nul.simps slice_def
  utf8_char_def decode_bytes_def encodings_def cont_def cpush_def Let_def BINARY_def lit_def

lemma ex1: "dump_whm_table [\<lparr>hash = 1, text' = [97, 0, 98]\<rparr>]
   = Inr [1, 0, 0, 0, 1, 0, 0, 0, 0, 0, 0, 0, 4, 0, 0, 0, 97, 0, 98, 0]"
  by (simp add: whm_eval)

lemma ex2: "parse_whm_table [1, 0, 0, 0, 1, 0, 0, 0, 0, 0, 0, 0, 4, 0, 0, 0, 97, 0, 98, 0]
   = Inr [\<lparr>hash = 1, text' = [97]\<rparr>]"
  by (simp add: whm_eval)

lemma ex3: "parse_whm_table [2, 0, 0, 0, 1, 0, 0, 0, 0, 0, 0, 0, 2, 0, 0, 0, 4, 0, 0, 0,
      4, 0, 0, 0, 97, 98] = Inl IndexError"
  by (simp add: whm_eval)

lemma ex4: "read_entries [2, 0, 0, 0, 1, 0, 0, 0, 0, 0, 0, 0, 2, 0, 0, 0, 4, 0, 0, 0,
      4, 0, 0, 0, 97, 98] = Inr ([(1, 0), (2, 4)], 24, 4)"
  by (simp add: whm_eval)

lemma ex5: "writable [\<lparr>hash = 3735928559, text' = lit ''Hi''\<rparr>, \<lparr>hash = 1, text' = [233]\<rparr>]"
  by (simp add: writable_def blob_of_def utf8_bytes_def utf8_char_def scalar_def lit_def)

lemma ex6: "whm_layout [\<lparr>hash = 3735928559, text' = lit ''Hi''\<rparr>, \<lparr>hash = 1, text' = [233]\<rparr>]
  = [2, 0, 0, 0, 239, 190, 173, 222, 0, 0, 0, 0, 1, 0, 0, 0, 3, 0, 0, 0, 6, 0, 0, 0,
     72, 105, 0, 195, 169, 0]"
  by (simp add: whm_layout_def offset_of_def blob_of_def utf8_bytes_def utf8_char_def lit_def
      le32_def to_byte_def upt_rec)

lemma parse_whm_table_result:
  assumes "read_entries data = Inr (es, bstart, bsz)" "parse_whm_table data = Inr rs"
  shows "length rs = length es"
    and "\<And>i. i < length es \<Longrightarrow> hash (rs ! i) = int (fst (es ! i))"
    and "\<And>i. i < length es \<Longrightarrow>
           entry_text (slice data bstart (bstart + bsz)) bsz (snd (es ! i)) = Inr (text' (rs ! i))"
proof -
  from assms have "parse_loop (slice data bstart (bstart + bsz)) bsz es [] = Inr rs"
    by (simp add: parse_whm_table_def)
  from parse_loop_Inr [OF this]
  show "length rs = length es"
    and "\<And>i. i < length es \<Longrightarrow> hash (rs ! i) = int (fst (es ! i))"
    and "\<And>i. i < length es \<Longrightarrow>
           entry_text (slice data bstart (bstart + bsz)) bsz (snd (es ! i)) = Inr (text' (rs ! i))"
    by simp_all
qed

lemma parse_whm_table_returns:
  assumes "read_entries data = Inr (es, bstart, bsz)" "bstart + bsz \<le> length data"
  shows "\<exists>rs. parse_whm_table data = Inr rs"
proof -
  have "bsz \<le> length (slice data bstart (bstart + bsz))"
    using length_slice_full [OF assms(2)] by simp
  then have "\<exists>rs. parse_loop (slice data bstart (bstart + bsz)) bsz es [] = Inr rs"
    by (intro parse_loop_total entry_text_total)
  then show ?thesis using assms(1) by (simp add: parse_whm_table_def)
qed

lemma parse_whm_table_fails:
  assumes "read_entries data = Inr (es, bstart, bsz)" "parse_whm_table data = Inl e"
  shows "e = IndexError \<and> length data < bstart + bsz \<and>
         (\<exists>i < length es. snd (es ! i) < bsz \<and>
            entry_text (slice data bstart (bstart + bsz)) bsz (snd (es ! i)) = Inl e)"
proof -
  let ?blob = "slice data bstart (bstart + bsz)"
  from assms have "parse_loop ?blob bsz es [] = Inl e"
    by (simp add: parse_whm_table_def)
  from parse_loop_Inl [OF this] obtain i where i: "i < length es"
    and f: "entry_text ?blob bsz (snd (es ! i)) = Inl e" by blast
  from entry_text_Inl [OF f] have e: "e = IndexError" and r: "snd (es ! i) < bsz"
    and l: "length ?blob < bsz" by simp_all
  have "length data < bstart + bsz"
  proof (rule ccontr)
    assume "\<not> length data < bstart + bsz"
    then have "length ?blob = bsz" by (simp add: length_slice_full)
    then show False using l by simp
  qed
  then show ?thesis using e i r f by blast
qed

lemma slice_layout:
  "slice (whm_layout items) (8 * length items + 8)
     (8 * length items + 8 + length (blob_of items)) = blob_of items"
proof -
  have "length (concat (map (\<lambda>k. le32 (nat (hash (items ! k))) @ le32 (offset_of items k))
                 [0..<length items])) = 8 * length items"
    using length_entries_bytes
      [of "map (\<lambda>k. (nat (hash (items ! k)), offset_of items k)) [0..<length items]"]
    by (simp add: comp_def)
  then show ?thesis by (simp add: slice_def whm_layout_def length_le32)
qed

lemma length_whm_layout:
  "length (whm_layout items) = 8 * length items + 8 + length (blob_of items)"
proof -
  have "length (concat (map (\<lambda>k. le32 (nat (hash (items ! k))) @ le32 (offset_of items k))
                 [0..<length items])) = 8 * length items"
    using length_entries_bytes
      [of "map (\<lambda>k. (nat (hash (items ! k)), offset_of items k)) [0..<length items]"]
    by (simp add: comp_def)
  then show ?thesis by (simp add: whm_layout_def length_le32)
qed

lemma BINARY_nonempty: "BINARY \<noteq> []"
  by (simp add: BINARY_def lit_def)

lemma BINARY_no_nul: "0 \<notin> set BINARY"
  by (simp add: BINARY_def lit_def)

lemma empty_entry_in_buffer:
  assumes off: "off < bsz" and inb: "bstart + off < length data"
    and z: "data ! (bstart + off) = 0"
  shows "entry_text (slice data bstart (bstart + bsz)) bsz off = Inr BINARY"
proof -
  let ?blob = "slice data bstart (bstart + bsz)"
  have l: "off < length ?blob" using off inb by (simp add: slice_def)
  have "?blob ! off = data ! (bstart + off)" using off inb by (simp add: slice_def)
  then show ?thesis using off l z by (simp add: entry_text_at_nul)
qed

lemma empty_item_in_blob:
  assumes j: "j < length items" and e: "text' (items ! j) = []"
  shows "entry_text (blob_of items) (length (blob_of items)) (offset_of items j) = Inr BINARY"
proof -
  let ?A = "blob_of (take j items)"
  let ?B = "blob_of (drop (Suc j) items)"
  have "items = take j items @ items ! j # drop (Suc j) items"
    using j by (simp add: id_take_nth_drop)
  then have "blob_of items = blob_of (take j items @ items ! j # drop (Suc j) items)"
    by simp
  then have blob: "blob_of items = ?A @ 0 # ?B"
    by (simp add: blob_of_append blob_of_Cons e)
  have off: "offset_of items j = length ?A" by (simp add: offset_of_def)
  show ?thesis
    unfolding off by (rule entry_text_at_nul) (simp_all add: blob)
qed

subsection \<open>What the decoders return\<close>

lemma cpush_Inr: "cpush c r = Inr s \<longleftrightarrow> (\<exists>s'. r = Inr s' \<and> s = c # s')"
  by (cases r) (auto simp: cpush_def)

lemma unat_byte_nonzero: "(b :: byte) \<noteq> 0 \<Longrightarrow> unat b \<noteq> 0"
  by (simp add: unat_eq_0)

lemma utf8_decode_no_nul:
  "utf8_decode bs = Inr s \<Longrightarrow> 0 \<notin> set bs \<Longrightarrow> 0 \<notin> set s \<and> (bs \<noteq> [] \<longrightarrow> s \<noteq> [])"
proof (induction bs arbitrary: s rule: utf8_decode.induct)
  case 1
  then show ?case by simp
next
  case (2 b0 bs)
  let ?n0 = "unat b0"
  from "2.prems" have b0: "?n0 \<noteq> 0" and nz: "0 \<notin> set bs"
    by (simp_all add: unat_byte_nonzero)
  consider (a) "?n0 < 128" | (b) "194 \<le> ?n0 \<and> ?n0 \<le> 223" | (c) "224 \<le> ?n0 \<and> ?n0 \<le> 239"
    | (d) "240 \<le> ?n0 \<and> ?n0 \<le> 244"
    | (e) "\<not> ?n0 < 128 \<and> \<not> (194 \<le> ?n0 \<and> ?n0 \<le> 223) \<and> \<not> (224 \<le> ?n0 \<and> ?n0 \<le> 239)
           \<and> \<not> (240 \<le> ?n0 \<and> ?n0 \<le> 244)"
    by blast
  then show ?case
  proof cases
    case a
    with "2.prems"(1) obtain s' where s': "utf8_decode bs = Inr s'" "s = ?n0 # s'"
      by (auto simp: Let_def cpush_Inr)
    from "2.IH"(1) [OF refl a s'(1) nz] b0 s'(2) show ?thesis by simp
  next
    case b
    with "2.prems"(1) obtain b1 r s' where bs: "bs = b1 # r" and c1: "cont b1"
      and s': "utf8_decode r = Inr s'" "s = ((?n0 - 192) * 64 + (unat b1 - 128)) # s'"
      by (auto simp: Let_def cpush_Inr split: list.splits if_splits)
    have na: "\<not> ?n0 < 128" using b by simp
    from nz bs have nzr: "0 \<notin> set r" by simp
    from "2.IH"(2) [OF refl na b bs c1 s'(1) nzr] b s'(2) show ?thesis by simp
  next
    case c
    with "2.prems"(1) obtain b1 b2 r s' where bs: "bs = b1 # b2 # r"
      and cs: "cont b1 \<and> cont b2 \<and> (?n0 = 224 \<longrightarrow> 160 \<le> unat b1)
                \<and> (?n0 = 237 \<longrightarrow> unat b1 \<le> 159)"
      and s': "utf8_decode r = Inr s'"
        "s = ((?n0 - 224) * 4096 + (unat b1 - 128) * 64 + (unat b2 - 128)) # s'"
      by (auto simp: Let_def cpush_Inr split: list.splits if_splits)
    have na: "\<not> ?n0 < 128" "\<not> (194 \<le> ?n0 \<and> ?n0 \<le> 223)" using c by simp_all
    from nz bs have nzr: "0 \<notin> set r" by simp
    have "(?n0 - 224) * 4096 + (unat b1 - 128) * 64 + (unat b2 - 128) \<noteq> 0"
      using c cs by (cases "?n0 = 224") auto
    with "2.IH"(3) [OF refl na c bs refl cs s'(1) nzr] s'(2) show ?thesis by simp
  next
    case d
    with "2.prems"(1) obtain b1 b2 b3 r s' where bs: "bs = b1 # b2 # b3 # r"
      and cs: "cont b1 \<and> cont b2 \<and> cont b3 \<and> (?n0 = 240 \<longrightarrow> 144 \<le> unat b1)
                \<and> (?n0 = 244 \<longrightarrow> unat b1 \<le> 143)"
      and s': "utf8_decode r = Inr s'"
        "s = ((?n0 - 240) * 262144 + (unat b1 - 128) * 4096
                         + (unat b2 - 128) * 64 + (unat b3 - 128)) # s'"
      by (auto simp: Let_def cpush_Inr split: list.splits if_splits)
    have na: "\<not> ?n0 < 128" "\<not> (194 \<le> ?n0 \<and> ?n0 \<le> 223)" "\<not> (224 \<le> ?n0 \<and> ?n0 \<le> 239)"
      using d by simp_all
    from nz bs have nzr: "0 \<notin> set r" by simp
    have "(?n0 - 240) * 262144 + (unat b1 - 128) * 4096
                         + (unat b2 - 128) * 64 + (unat b3 - 128) \<noteq> 0"
      using d cs by (cases "?n0 = 240") auto
    with "2.IH"(4) [OF refl na d bs refl refl cs s'(1) nzr] s'(2) show ?thesis by simp
  next
    case e
    with "2.prems"(1) show ?thesis by (simp add: Let_def)
  qed
qed

lemma cp1252_table_nonzero:
  "k < 32 \<Longrightarrow> k \<notin> {1, 13, 15, 16, 29} \<Longrightarrow> cp1252_table ! k \<noteq> 0"
proof -
  assume "k < 32" "k \<notin> {1, 13, 15, 16, 29}"
  then have "k \<in> {0, 2, 3, 4, 5, 6, 7, 8, 9, 10, 11, 12, 14, 17, 18, 19, 20, 21, 22, 23, 24,
                    25, 26, 27, 28, 30, 31}"
    by simp presburger
  then show ?thesis
    by (auto simp: cp1252_table_def)
qed

lemma cp1252_char_nonzero: "cp1252_char b = Inr c \<Longrightarrow> b \<noteq> 0 \<Longrightarrow> c \<noteq> 0"
proof -
  assume c: "cp1252_char b = Inr c" and b: "b \<noteq> 0"
  let ?n = "unat b"
  have n: "?n \<noteq> 0" using b by (rule unat_byte_nonzero)
  show ?thesis
  proof (cases "?n < 128 \<or> 160 \<le> ?n")
    case True
    then show ?thesis using c n by (auto simp: cp1252_char_def Let_def)
  next
    case False
    then have k: "?n - 128 < 32" by linarith
    from False c have nin: "?n \<notin> {129, 141, 143, 144, 157}" and v: "c = cp1252_table ! (?n - 128)"
      by (auto simp: cp1252_char_def Let_def split: if_splits)
    have "?n - 128 \<notin> {1, 13, 15, 16, 29}" using nin False by simp linarith
    then show ?thesis using cp1252_table_nonzero [OF k] v by simp
  qed
qed

lemma cp1252_decode_no_nul:
  "cp1252_decode bs = Inr s \<Longrightarrow> 0 \<notin> set bs \<Longrightarrow> 0 \<notin> set s \<and> (bs \<noteq> [] \<longrightarrow> s \<noteq> [])"
proof (induction bs arbitrary: s)
  case Nil
  then show ?case by simp
next
  case (Cons b bs)
  from Cons.prems(1) obtain c s' where c: "cp1252_char b = Inr c"
    and s': "cp1252_decode bs = Inr s'" "s = c # s'"
    by (auto simp: cpush_Inr split: sum.splits)
  from Cons.prems(2) have "b \<noteq> 0" "0 \<notin> set bs" by auto
  then show ?case using cp1252_char_nonzero [OF c] Cons.IH [OF s'(1)] s'(2) by simp
qed

lemma latin1_decode_no_nul:
  "latin1_decode bs = Inr s \<Longrightarrow> 0 \<notin> set bs \<Longrightarrow> 0 \<notin> set s \<and> (bs \<noteq> [] \<longrightarrow> s \<noteq> [])"
  by (auto simp: latin1_decode_def unat_eq_0)

lemma decode_with_no_nul:
  "decode_with enc bs = Inr s \<Longrightarrow> 0 \<notin> set bs \<Longrightarrow> 0 \<notin> set s \<and> (bs \<noteq> [] \<longrightarrow> s \<noteq> [])"
  by (cases enc) (simp_all add: utf8_decode_no_nul cp1252_decode_no_nul latin1_decode_no_nul)

lemma decode_bytes_no_nul:
  assumes "0 \<notin> set bs" "bs \<noteq> []"
  shows "0 \<notin> set (decode_bytes bs) \<and> decode_bytes bs \<noteq> []"
proof (cases "utf8_decode bs")
  case (Inr s)
  then show ?thesis
    using utf8_decode_no_nul [OF Inr assms(1)] assms(2)
    by (simp add: decode_bytes_def encodings_def)
next
  case u: (Inl e)
  show ?thesis
  proof (cases "cp1252_decode bs")
    case (Inr s)
    then show ?thesis
      using cp1252_decode_no_nul [OF Inr assms(1)] assms(2) u
      by (simp add: decode_bytes_def encodings_def)
  next
    case (Inl e')
    then show ?thesis
      using latin1_decode_no_nul [of bs "map unat bs"] assms u
      by (simp add: decode_bytes_def encodings_def latin1_decode_def)
  qed
qed

lemma scan_nul_Inr:
  "scan_nul blob n off = Inr j \<Longrightarrow>
   off \<le> j \<and> (\<forall>i. off \<le> i \<and> i < j \<longrightarrow> i < length blob \<and> blob ! i \<noteq> 0)"
proof (induction blob n off rule: scan_nul.induct)
  case (1 blob blob_size k)
  have unf: "scan_nul blob blob_size k =
     (if k < blob_size then
        (if k < length blob then
           (if blob ! k \<noteq> 0 then scan_nul blob blob_size (k + 1) else Inr k)
         else Inl IndexError)
      else Inr k)"
    by (rule scan_nul.simps)
  show ?case
  proof (cases "k < blob_size \<and> k < length blob \<and> blob ! k \<noteq> 0")
    case True
    then have "scan_nul blob blob_size (k + 1) = Inr j" using "1.prems" unf by simp
    with "1.IH" True have ih: "k + 1 \<le> j"
      "\<forall>i. k + 1 \<le> i \<and> i < j \<longrightarrow> i < length blob \<and> blob ! i \<noteq> 0"
      by blast+
    have "i < length blob \<and> blob ! i \<noteq> 0" if "k \<le> i" "i < j" for i
    proof (cases "i = k")
      case True
      then show ?thesis using \<open>k < blob_size \<and> k < length blob \<and> blob ! k \<noteq> 0\<close> by simp
    next
      case False
      then have "k + 1 \<le> i" using that by simp
      then show ?thesis using ih(2) that by blast
    qed
    then show ?thesis using ih(1) by auto
  next
    case False
    then have "j = k" using "1.prems" unf by (auto split: if_splits)
    then show ?thesis by auto
  qed
qed

lemma slice_no_nul:
  assumes "\<forall>i. off \<le> i \<and> i < j \<longrightarrow> i < length blob \<and> blob ! i \<noteq> 0"
  shows "0 \<notin> set (slice blob off j)"
proof
  assume "0 \<in> set (slice blob off j)"
  then obtain k where k: "k < length (slice blob off j)" and z: "slice blob off j ! k = 0"
    by (auto simp: in_set_conv_nth)
  from k have "k < j - off \<and> k < length blob - off" by (simp add: slice_def)
  then have "k < j - off" "off + k < length blob" by linarith+
  moreover from this z have "blob ! (off + k) = 0" by (simp add: slice_def)
  ultimately show False using assms by (metis le_add1 less_diff_conv add.commute)
qed

lemma entry_text_no_nul:
  assumes "entry_text blob n off = Inr t"
  shows "t \<noteq> [] \<and> 0 \<notin> set t"
proof (cases "off < n")
  case False
  then have "t = BINARY" using assms by (simp add: entry_text_def entry_bytes_def)
  then show ?thesis by (simp add: BINARY_nonempty BINARY_no_nul)
next
  case True
  with assms obtain j where j: "scan_nul blob n off = Inr j"
    and t: "t = (if slice blob off j \<noteq> [] then decode_bytes (slice blob off j) else BINARY)"
    by (auto simp: entry_text_def entry_bytes_def split: sum.splits)
  have nn: "0 \<notin> set (slice blob off j)"
    using scan_nul_Inr [OF j] by (intro slice_no_nul) blast
  show ?thesis
  proof (cases "slice blob off j = []")
    case True
    then show ?thesis using t by (simp add: BINARY_nonempty BINARY_no_nul)
  next
    case False
    then show ?thesis using decode_bytes_no_nul [OF nn False] t by simp
  qed
qed

lemma read_entries_of_parse:
  "parse_whm_table data = Inr rs \<Longrightarrow> \<exists>es bstart bsz. read_entries data = Inr (es, bstart, bsz)"
  by (cases "read_entries data") (auto simp: parse_whm_table_def)

lemma parse_whm_table_texts:
  assumes "parse_whm_table data = Inr rs"
  shows "\<forall>it \<in> set rs. text' it \<noteq> [] \<and> 0 \<notin> set (text' it)"
proof
  fix it assume "it \<in> set rs"
  then obtain i where i: "i < length rs" and it: "it = rs ! i" by (auto simp: in_set_conv_nth)
  from read_entries_of_parse [OF assms] obtain es bstart bsz
    where r: "read_entries data = Inr (es, bstart, bsz)" by blast
  have "i < length es" using parse_whm_table_result(1) [OF r assms] i by simp
  from parse_whm_table_result(3) [OF r assms this]
  show "text' it \<noteq> [] \<and> 0 \<notin> set (text' it)"
    unfolding it by (rule entry_text_no_nul)
qed

lemma readback_id: "text' it \<noteq> [] \<Longrightarrow> readback it = (it :: item)"
  by (simp add: readback_def)

lemma decode_loop_find:
  "decode_loop encs bts =
     (case find (\<lambda>enc. attempt enc bts \<noteq> None) encs of
        Some enc \<Rightarrow> the (attempt enc bts)
      | None \<Rightarrow> bytes_hex bts)"
  by (induction encs) (auto simp: attempt_def split: sum.splits)

lemma hex_digit_inj: "a < 16 \<Longrightarrow> b < 16 \<Longrightarrow> hex_digit a = hex_digit b \<Longrightarrow> a = b"
  by (auto simp: hex_digit_def split: if_splits)

lemma byte_eq_by_nibbles:
  assumes "unat a div 16 = unat b div 16" "unat a mod 16 = unat b mod 16"
  shows "(a :: byte) = b"
proof -
  have "unat a = 16 * (unat a div 16) + unat a mod 16" by simp
  also have "\<dots> = 16 * (unat b div 16) + unat b mod 16" using assms by simp
  also have "\<dots> = unat b" by simp
  finally show ?thesis by (simp add: word_unat_eq_iff)
qed

lemma bytes_hex_inj: "bytes_hex a = bytes_hex b \<Longrightarrow> a = b"
proof (induction a arbitrary: b)
  case Nil
  then show ?case by (cases b) (simp_all add: bytes_hex_def)
next
  case (Cons x a)
  then obtain y b' where b: "b = y # b'" by (cases b) (auto simp: bytes_hex_def)
  from Cons.prems have h1: "hex_digit (unat x div 16) = hex_digit (unat y div 16)"
    and h2: "hex_digit (unat x mod 16) = hex_digit (unat y mod 16)"
    and r: "bytes_hex a = bytes_hex b'"
    by (simp_all add: b bytes_hex_def)
  have lt: "unat x < 256" "unat y < 256"
    using unsigned_less [of x] unsigned_less [of y] by simp_all
  then have d: "unat x div 16 < 16" "unat y div 16 < 16"
    by (simp_all add: div_less_iff_less_mult)
  have "unat x div 16 = unat y div 16" by (rule hex_digit_inj [OF d h1])
  moreover have "unat x mod 16 = unat y mod 16" by (rule hex_digit_inj [OF _ _ h2]) simp_all
  ultimately have "x = y" by (rule byte_eq_by_nibbles)
  then show ?case using Cons.IH [OF r] b by simp
qed

lemma latin1_length: "attempt Latin1 bts = Some (map unat bts)"
  by (simp add: attempt_def latin1_decode_def)

lemma cp1252_decode_length: "cp1252_decode bts = Inr s \<Longrightarrow> length s = length bts"
  by (induction bts arbitrary: s) (auto simp: cpush_Inr split: sum.splits)

section \<open>Facts about the validators and the loaders\<close>

lemmas txt_eval =
  load_txt_items_def py_lines_def strip_def py_isspace_def split_eq_def py_int16_def
  int_ascii_def c_isspace_def hex_value_def skip_prefix_def Let_def lit_def

lemmas re_eval =
  validate_key_static_def re_hash_def re_VC_def re_SA_def re_III_def re_IV_plain_def
  in_class_def lower_startswith_0x_def upt_rec lit_def

lemmas main_eval =
  load_standard_txt_def initial_state_def MAIN_def load_line_def is_header_def
  validate_key_for_import_optimized_def get_key_validation_message_def
  py_lines_def strip_def py_isspace_def split_eq_def Let_def

lemma fullmatch_single:
  "fullmatch [Atom cls lo (Some hi)] s \<longleftrightarrow>
     lo \<le> length s \<and> length s \<le> hi \<and> list_all (in_class cls) s"
proof -
  have "fullmatch [Atom cls lo (Some hi)] s \<longleftrightarrow>
      (\<exists>k. lo \<le> k \<and> k \<le> min hi (length s) \<and> list_all (in_class cls) (take k s)
           \<and> drop k s = [])"
    by (auto simp: list_ex_iff less_Suc_eq_le)
  also have "\<dots> \<longleftrightarrow> lo \<le> length s \<and> length s \<le> hi \<and> list_all (in_class cls) s"
  proof
    assume "\<exists>k. lo \<le> k \<and> k \<le> min hi (length s) \<and> list_all (in_class cls) (take k s)
           \<and> drop k s = []"
    then obtain k where k: "lo \<le> k" "k \<le> min hi (length s)"
      "list_all (in_class cls) (take k s)" "drop k s = []" by blast
    then have "k = length s" by simp
    then show "lo \<le> length s \<and> length s \<le> hi \<and> list_all (in_class cls) s"
      using k by simp
  next
    assume a: "lo \<le> length s \<and> length s \<le> hi \<and> list_all (in_class cls) s"
    then have "lo \<le> length s \<and> length s \<le> min hi (length s)
        \<and> list_all (in_class cls) (take (length s) s) \<and> drop (length s) s = []"
      by simp
    then show "\<exists>k. lo \<le> k \<and> k \<le> min hi (length s) \<and> list_all (in_class cls) (take k s)
           \<and> drop k s = []" by blast
  qed
  finally show ?thesis .
qed

lemma fullmatch_plus:
  "fullmatch [Atom cls lo None] s \<longleftrightarrow> lo \<le> length s \<and> list_all (in_class cls) s"
proof -
  have "fullmatch [Atom cls lo None] s \<longleftrightarrow>
      (\<exists>k. lo \<le> k \<and> k \<le> length s \<and> list_all (in_class cls) (take k s) \<and> drop k s = [])"
    by (auto simp: list_ex_iff less_Suc_eq_le)
  also have "\<dots> \<longleftrightarrow> lo \<le> length s \<and> list_all (in_class cls) s"
  proof
    assume "\<exists>k. lo \<le> k \<and> k \<le> length s \<and> list_all (in_class cls) (take k s) \<and> drop k s = []"
    then obtain k where k: "lo \<le> k" "k \<le> length s"
      "list_all (in_class cls) (take k s)" "drop k s = []" by blast
    then have "k = length s" by simp
    then show "lo \<le> length s \<and> list_all (in_class cls) s" using k by simp
  next
    assume a: "lo \<le> length s \<and> list_all (in_class cls) s"
    then have "lo \<le> length s \<and> length s \<le> length s
        \<and> list_all (in_class cls) (take (length s) s) \<and> drop (length s) s = []"
      by simp
    then show "\<exists>k. lo \<le> k \<and> k \<le> length s \<and> list_all (in_class cls) (take k s)
        \<and> drop k s = []" by blast
  qed
  finally show ?thesis .
qed

lemma fullmatch_one:
  "fullmatch (Atom cls 1 (Some 1) # r) s \<longleftrightarrow>
     (case s of [] \<Rightarrow> False | a # t \<Rightarrow> in_class cls a \<and> fullmatch r t)"
  by (cases s) (simp_all add: upt_rec)

lemma in_class_hex: "in_class [(48, 57), (97, 102), (65, 70)] c \<longleftrightarrow> is_hexdigit c"
  by (auto simp: in_class_def is_hexdigit_def is_digit_def)

lemma in_class_VC: "in_class [(48, 57), (65, 90), (95, 95)] c \<longleftrightarrow> is_digit c \<or> is_upper c \<or> c = 95"
  by (auto simp: in_class_def is_digit_def is_upper_def)

lemma in_class_III: "in_class [(48, 57), (97, 122), (65, 90), (95, 95)] c \<longleftrightarrow> is_ident c"
  by (auto simp: in_class_def is_ident_def is_digit_def is_upper_def is_lower_def)

lemma in_class_IV: "in_class [(65, 90), (97, 122), (48, 57), (95, 95)] c \<longleftrightarrow> is_ident c"
  by (auto simp: in_class_def is_ident_def is_digit_def is_upper_def is_lower_def)

lemma in_class_0: "in_class [(48, 48)] c \<longleftrightarrow> c = 48"
  by (auto simp: in_class_def)

lemma in_class_x: "in_class [(120, 120), (88, 88)] c \<longleftrightarrow> c = 120 \<or> c = 88"
  by (auto simp: in_class_def)

lemma list_all_cong_iff: "(\<And>c. P c \<longleftrightarrow> Q c) \<Longrightarrow> list_all P s \<longleftrightarrow> list_all Q s"
  by (simp add: list_all_iff)

lemma fullmatch_re_VC: "fullmatch re_VC key \<longleftrightarrow> hashed_short_upper key"
  unfolding re_VC_def fullmatch_single hashed_short_upper_def
  using list_all_cong_iff [of "in_class [(48, 57), (65, 90), (95, 95)]" _ key, OF in_class_VC]
  by simp

lemma fullmatch_re_SA: "fullmatch re_SA key \<longleftrightarrow> hashed_8hex key"
  unfolding re_SA_def fullmatch_single hashed_8hex_def
  using list_all_cong_iff [of "in_class [(48, 57), (97, 102), (65, 70)]" _ key, OF in_class_hex]
  by simp

lemma fullmatch_re_III: "fullmatch re_III key \<longleftrightarrow> plain7 key"
  unfolding re_III_def fullmatch_single plain7_def
  using list_all_cong_iff [of "in_class [(48, 57), (97, 122), (65, 90), (95, 95)]" _ key,
      OF in_class_III]
  by simp

lemma fullmatch_re_IV_plain: "fullmatch re_IV_plain key \<longleftrightarrow> key \<noteq> [] \<and> list_all is_ident key"
proof -
  have "1 \<le> length key \<longleftrightarrow> key \<noteq> []" by (cases key) simp_all
  then show ?thesis
    unfolding re_IV_plain_def fullmatch_plus
    using list_all_cong_iff [of "in_class [(65, 90), (97, 122), (48, 57), (95, 95)]" _ key,
        OF in_class_IV]
    by simp
qed

lemma fullmatch_re_hash: "fullmatch re_hash key \<longleftrightarrow> hash_key True key"
proof (cases key)
  case Nil
  then show ?thesis by (simp add: re_hash_def fullmatch_one hash_key_def)
next
  case (Cons a t)
  show ?thesis
  proof (cases t)
    case Nil
    then show ?thesis using Cons by (simp add: re_hash_def fullmatch_one hash_key_def)
  next
    case (Cons b ds)
    have h: "list_all (in_class [(48, 57), (97, 102), (65, 70)]) ds \<longleftrightarrow> list_all is_hexdigit ds"
      by (rule list_all_cong_iff) (rule in_class_hex)
    have "fullmatch re_hash (a # b # ds) \<longleftrightarrow>
        a = 48 \<and> (b = 120 \<or> b = 88) \<and> length ds = 8 \<and> list_all is_hexdigit ds"
      using h by (auto simp: re_hash_def fullmatch_one fullmatch_single in_class_0 in_class_x)
    also have "\<dots> \<longleftrightarrow> hash_key True (a # b # ds)"
      by (auto simp: hash_key_def)
    finally show ?thesis using \<open>key = a # t\<close> Cons by simp
  qed
qed

lemma hash_key_ident: "hash_key any_case key \<Longrightarrow> key \<noteq> [] \<and> list_all is_ident key"
proof -
  assume h: "hash_key any_case key"
  then obtain a b ds where k: "key = a # b # ds"
    by (cases key; cases "tl key") (auto simp: hash_key_def)
  have "is_hexdigit c \<Longrightarrow> is_ident c" for c
    by (auto simp: is_hexdigit_def is_ident_def is_upper_def is_lower_def)
  then have "list_all is_ident ds" using h k by (auto simp: hash_key_def list_all_iff)
  moreover have "is_ident a" "is_ident b"
    using h k by (auto simp: hash_key_def is_ident_def is_digit_def is_upper_def is_lower_def)
  ultimately show ?thesis using k by simp
qed

lemma plain_or_hash_ident: "plain_or_hash key \<longleftrightarrow> key \<noteq> [] \<and> list_all is_ident key"
  using hash_key_ident [of False key] by (auto simp: plain_or_hash_def)

subsection \<open>\<^verbatim>\<open>int(s, 16)\<close> on hexadecimal digits\<close>

lemma is_hexdigit_value: "is_hexdigit c \<Longrightarrow> \<exists>d. hex_value c = Some d \<and> d < 16"
  by (auto simp: is_hexdigit_def is_digit_def hex_value_def)

lemma is_hexdigit_props: "is_hexdigit c \<Longrightarrow> c \<noteq> 95 \<and> c < 128 \<and> \<not> c_isspace c \<and> c \<noteq> 43 \<and> c \<noteq> 45"
  by (auto simp: is_hexdigit_def is_digit_def c_isspace_def)

lemma scan_digits_hex:
  "list_all is_hexdigit cs \<Longrightarrow> prev \<noteq> 95 \<Longrightarrow>
   scan_digits prev cs ds = Some (ds @ map (\<lambda>c. the (hex_value c)) cs, [])"
proof (induction cs arbitrary: prev ds)
  case Nil
  then show ?case by simp
next
  case (Cons c cs)
  then have c: "is_hexdigit c" and r: "list_all is_hexdigit cs" by simp_all
  from is_hexdigit_value [OF c] obtain d where d: "hex_value c = Some d" by blast
  have n: "c \<noteq> 95" using is_hexdigit_props [OF c] by simp
  show ?case using Cons.IH [OF r n] by (simp add: d n)
qed

lemma foldl_hex_bound:
  "list_all (\<lambda>d. d < 16) ds \<Longrightarrow> foldl (\<lambda>v d. 16 * v + d) (a :: nat) ds < 16 ^ length ds * (a + 1)"
proof (induction ds arbitrary: a)
  case Nil
  then show ?case by simp
next
  case (Cons d ds)
  then have d: "d < 16" and r: "list_all (\<lambda>d. d < 16) ds" by simp_all
  have "foldl (\<lambda>v d. 16 * v + d) (16 * a + d) ds < 16 ^ length ds * (16 * a + d + 1)"
    by (rule Cons.IH [OF r])
  also have "\<dots> \<le> 16 ^ length ds * (16 * (a + 1))"
    using d by (intro mult_le_mono2) simp
  also have "\<dots> = 16 ^ length (d # ds) * (a + 1)" by (simp add: algebra_simps)
  finally show ?case by simp
qed

lemma hex_number_bound:
  assumes "list_all is_hexdigit ds"
  shows "hex_number ds < 16 ^ length ds"
proof -
  have "list_all (\<lambda>d. d < 16) (map (\<lambda>c. the (hex_value c)) ds)"
    using assms is_hexdigit_value by (fastforce simp: list_all_iff)
  from foldl_hex_bound [OF this, of 0] show ?thesis by (simp add: hex_number_def)
qed

lemma py_int16_hash_key:
  assumes "hash_key True key"
  shows "py_int16 key = Some (int (hex_number (drop 2 key)))"
    and "hex_number (drop 2 key) < 4294967296"
proof -
  from assms obtain x ds where k: "key = 48 # x # ds" and x: "x = 120 \<or> x = 88"
    and l: "length ds = 8" and h: "list_all is_hexdigit ds"
    by (cases key; cases "tl key") (auto simp: hash_key_def)
  obtain c cs where ds: "ds = c # cs" using l by (cases ds) simp_all
  have c: "is_hexdigit c" using h ds by simp
  have asc: "list_all (\<lambda>c. c < 128) key"
    using h x is_hexdigit_props by (auto simp: k list_all_iff)
  have ia: "int_ascii key = key" using asc by (simp add: int_ascii_def)
  have sp: "skip_prefix key = ds"
    using x is_hexdigit_props [OF c] by (auto simp: skip_prefix_def k ds)
  have sc: "scan_digits 0 ds [] = Some ([] @ map (\<lambda>c. the (hex_value c)) ds, [])"
    by (rule scan_digits_hex [OF h]) simp
  have ne: "map (\<lambda>c. the (hex_value c)) ds \<noteq> []" by (simp add: ds)
  have hd: "hd ds \<noteq> 95" using is_hexdigit_props [OF c] by (simp add: ds)
  have "py_int16 (48 # x # ds) = Some (int (hex_number ds))"
    unfolding py_int16_def ia [unfolded k]
    using sp [unfolded k] sc ne hd
    by (simp add: c_isspace_def Let_def hex_number_def ds)
  then show "py_int16 key = Some (int (hex_number (drop 2 key)))" by (simp add: k)
  have "hex_number ds < 16 ^ length ds" by (rule hex_number_bound [OF h])
  then show "hex_number (drop 2 key) < 4294967296" by (simp add: k l)
qed

lemma hash_key_no_eq: "hash_key True key \<Longrightarrow> 61 \<notin> set key"
proof -
  assume h: "hash_key True key"
  then obtain x ds where k: "key = 48 # x # ds" and x: "x = 120 \<or> x = 88"
    and d: "list_all is_hexdigit ds"
    by (cases key; cases "tl key") (auto simp: hash_key_def)
  have "is_hexdigit c \<Longrightarrow> c \<noteq> 61" for c
    by (auto simp: is_hexdigit_def is_digit_def)
  then have "61 \<notin> set ds" using d by (auto simp: list_all_iff)
  then show ?thesis using x by (auto simp: k)
qed

lemma split_eq_at: "61 \<notin> set key \<Longrightarrow> split_eq (key @ 61 # t) = (key, t)"
proof -
  assume "61 \<notin> set key"
  then have a: "\<And>c. c \<in> set key \<Longrightarrow> c \<noteq> 61" by blast
  have "takeWhile (\<lambda>c. c \<noteq> 61) (key @ 61 # t) = key @ takeWhile (\<lambda>c. c \<noteq> 61) (61 # t)"
    by (rule takeWhile_append2) (rule a)
  moreover have "dropWhile (\<lambda>c. c \<noteq> 61) (key @ 61 # t) = dropWhile (\<lambda>c. c \<noteq> 61) (61 # t)"
    by (rule dropWhile_append2) (rule a)
  ultimately show ?thesis by (simp add: split_eq_def)
qed

lemma load_txt_loop_step:
  "load_txt_loop n (raw # rest) items out =
     (if strip raw = [] then load_txt_loop (n + 1) rest items out
      else if 61 \<in> set (strip raw) then
        (case py_int16 (fst (split_eq (strip raw))) of
           Some v \<Rightarrow> load_txt_loop (n + 1) rest
                       (items @ [\<lparr>hash = v, text' = snd (split_eq (strip raw))\<rparr>]) out
         | None \<Rightarrow> load_txt_loop (n + 1) rest items (out @ [InvalidHash n]))
      else load_txt_loop (n + 1) rest items (out @ [MissingSeparator n]))"
  by (simp add: Let_def)

subsection \<open>One line of \<^verbatim>\<open>_load_standard_txt\<close>\<close>

lemma load_line_blank: "strip raw = [] \<Longrightarrow> load_line ht v f n raw st = Inr st"
  by (simp add: load_line_def)

lemma load_line_header:
  "strip raw \<noteq> [] \<Longrightarrow> ht \<Longrightarrow> is_header (strip raw) \<Longrightarrow>
   load_line ht v f n raw st =
     Inr (st\<lparr>current_table := Some (strip (butlast (tl (strip raw)))),
             data' := (if strip (butlast (tl (strip raw))) \<noteq> []
                          \<and> strip (butlast (tl (strip raw))) \<notin> set (map fst (data' st))
                       then data' st @ [(strip (butlast (tl (strip raw))), [])]
                       else data' st)\<rparr>)"
  by (simp add: load_line_def Let_def)

lemma load_line_no_separator:
  "strip raw \<noteq> [] \<Longrightarrow> \<not> (ht \<and> is_header (strip raw)) \<Longrightarrow> 61 \<notin> set (strip raw) \<Longrightarrow>
   load_line ht v f n raw st = Inr st"
  by (auto simp: load_line_def Let_def)

lemma load_line_no_table:
  "strip raw \<noteq> [] \<Longrightarrow> \<not> (ht \<and> is_header (strip raw)) \<Longrightarrow> current_table st = None \<Longrightarrow>
   load_line ht v f n raw st = Inr st"
  by (auto simp: load_line_def Let_def)

lemma load_line_invalid:
  "strip raw \<noteq> [] \<Longrightarrow> \<not> (ht \<and> is_header (strip raw)) \<Longrightarrow> 61 \<in> set (strip raw) \<Longrightarrow>
   current_table st \<noteq> None \<Longrightarrow> \<not> validate_key_static (kv_key (strip raw)) v Gxt \<Longrightarrow>
   load_line ht v f n raw st =
     Inr (st\<lparr>invalid_keys := invalid_keys st
               @ [(kv_key (strip raw), n, f, get_key_validation_message v Gxt)]\<rparr>)"
  by (auto simp: load_line_def Let_def kv_key_def validate_key_for_import_optimized_def)

lemma load_line_valid:
  "strip raw \<noteq> [] \<Longrightarrow> \<not> (ht \<and> is_header (strip raw)) \<Longrightarrow> 61 \<in> set (strip raw) \<Longrightarrow>
   current_table st = Some t \<Longrightarrow> validate_key_static (kv_key (strip raw)) v Gxt \<Longrightarrow>
   load_line ht v f n raw st =
     (if kv_key (strip raw) = [] then Inr st
      else (case map_of (data' st) t of
              None \<Rightarrow> Inl KeyError
            | Some tbl \<Rightarrow>
                Inr (st\<lparr>data' := dict_set t
                          (dict_set (kv_key (strip raw)) (strip (snd (split_eq (strip raw)))) tbl)
                          (data' st)\<rparr>)))"
  by (auto simp: load_line_def Let_def kv_key_def validate_key_for_import_optimized_def
      split: option.splits)

text \<open>The five cases cover every line.\<close>

lemma load_line_cases:
  obtains (blank) "strip raw = []"
  | (header) "strip raw \<noteq> []" "ht" "is_header (strip raw)"
  | (no_separator) "strip raw \<noteq> []" "\<not> (ht \<and> is_header (strip raw))" "61 \<notin> set (strip raw)"
  | (no_table) "strip raw \<noteq> []" "\<not> (ht \<and> is_header (strip raw))" "61 \<in> set (strip raw)"
      "current_table st = None"
  | (invalid) "strip raw \<noteq> []" "\<not> (ht \<and> is_header (strip raw))" "61 \<in> set (strip raw)"
      "current_table st \<noteq> None" "\<not> validate_key_static (kv_key (strip raw)) v Gxt"
  | (valid) t where "strip raw \<noteq> []" "\<not> (ht \<and> is_header (strip raw))" "61 \<in> set (strip raw)"
      "current_table st = Some t" "validate_key_static (kv_key (strip raw)) v Gxt"
  by (cases "current_table st") blast+

lemma fst_set_dict_set: "fst ` set (dict_set k x d) = insert k (fst ` set d)"
  by (induction d) auto

lemma set_dict_set: "set (dict_set k x d) \<subseteq> insert (k, x) (set d)"
  by (induction d) auto

lemma load_line_Inl: "load_line ht v f n raw st = Inl e \<Longrightarrow> e = KeyError"
  by (auto simp: load_line_def Let_def split: if_splits option.splits)

subsection \<open>The error list of a whole run\<close>

lemma expected_errors_Cons:
  "expected_errors ht v f seen n (raw # rest) =
     expected_errors ht v f seen n [raw]
     @ expected_errors ht v f (table_seen ht seen [raw]) (n + 1) rest"
  by (auto simp: table_seen_def)

lemma table_seen_Cons:
  "table_seen ht seen (raw # rest) = table_seen ht (table_seen ht seen [raw]) rest"
  by (auto simp: table_seen_def)

lemma load_line_errors:
  assumes "load_line ht v f n raw st = Inr st1"
  shows "invalid_keys st1 =
           invalid_keys st @ expected_errors ht v f (current_table st \<noteq> None) n [raw]"
    and "(current_table st1 \<noteq> None) = table_seen ht (current_table st \<noteq> None) [raw]"
proof -
  have "invalid_keys st1 =
           invalid_keys st @ expected_errors ht v f (current_table st \<noteq> None) n [raw]
        \<and> (current_table st1 \<noteq> None) = table_seen ht (current_table st \<noteq> None) [raw]"
  proof (cases rule: load_line_cases [where raw = raw and ht = ht and st = st and v = v])
    case blank
    then show ?thesis using assms by (auto simp: load_line_blank table_seen_def)
  next
    case header
    then show ?thesis using assms by (auto simp: load_line_header table_seen_def)
  next
    case no_separator
    then show ?thesis using assms by (auto simp: load_line_no_separator table_seen_def)
  next
    case no_table
    then show ?thesis using assms by (auto simp: load_line_no_table table_seen_def)
  next
    case invalid
    then show ?thesis using assms by (auto simp: load_line_invalid table_seen_def)
  next
    case (valid t)
    then show ?thesis
      using assms
      by (auto simp: load_line_valid table_seen_def split: if_splits option.splits)
  qed
  then show "invalid_keys st1 =
           invalid_keys st @ expected_errors ht v f (current_table st \<noteq> None) n [raw]"
    and "(current_table st1 \<noteq> None) = table_seen ht (current_table st \<noteq> None) [raw]"
    by simp_all
qed

lemma load_lines_errors:
  "load_lines ht v f n ls st = Inr st' \<Longrightarrow>
   invalid_keys st' = invalid_keys st @ expected_errors ht v f (current_table st \<noteq> None) n ls
   \<and> (current_table st' \<noteq> None) = table_seen ht (current_table st \<noteq> None) ls"
proof (induction ls arbitrary: n st)
  case Nil
  then show ?case by (simp add: table_seen_def)
next
  case (Cons raw rest)
  from Cons.prems obtain st1 where 1: "load_line ht v f n raw st = Inr st1"
    and 2: "load_lines ht v f (n + 1) rest st1 = Inr st'"
    by (auto split: sum.splits)
  note a = load_line_errors [OF 1]
  note b = Cons.IH [OF 2]
  show ?case
    unfolding expected_errors_Cons [of ht v f _ n raw rest] table_seen_Cons [of ht _ raw rest]
    using a b by simp
qed

lemma load_files_errors:
  "load_files ht v files st = Inr st' \<Longrightarrow>
   invalid_keys st' = invalid_keys st @ expected_all ht v (current_table st \<noteq> None) files"
proof (induction files arbitrary: st)
  case Nil
  then show ?case by simp
next
  case (Cons fc files)
  obtain f c where fc: "fc = (f, c)" by (cases fc)
  from Cons.prems obtain st1 where 1: "load_lines ht v f 1 (py_lines c) st = Inr st1"
    and 2: "load_files ht v files st1 = Inr st'"
    by (auto simp: fc split: sum.splits)
  note a = load_lines_errors [OF 1]
  note b = Cons.IH [OF 2]
  show ?case using a b by (simp add: fc)
qed

lemma expected_errors_member:
  "(k, ln, f', m) \<in> set (expected_errors ht v f seen n ls) \<Longrightarrow>
   f' = f \<and> m = get_key_validation_message v Gxt \<and> n \<le> ln \<and> ln < n + length ls \<and>
   strip (ls ! (ln - n)) \<noteq> [] \<and> 61 \<in> set (strip (ls ! (ln - n))) \<and>
   k = kv_key (strip (ls ! (ln - n))) \<and> \<not> validate_key_static k v Gxt"
proof (induction ls arbitrary: n seen)
  case Nil
  then show ?case by simp
next
  case (Cons raw rest)
  show ?case
  proof (cases "(k, ln, f', m) \<in> set (expected_errors ht v f seen n [raw])")
    case True
    then show ?thesis by (auto split: if_splits)
  next
    case False
    then have "(k, ln, f', m) \<in> set (expected_errors ht v f (table_seen ht seen [raw]) (n + 1) rest)"
      using Cons.prems unfolding expected_errors_Cons [of ht v f seen n raw rest] by simp
    note ih = Cons.IH [OF this]
    then have le: "n + 1 \<le> ln" by simp
    then have "ln - n = Suc (ln - (n + 1))" by linarith
    then have "(raw # rest) ! (ln - n) = rest ! (ln - (n + 1))"
      by (simp only: nth_Cons_Suc)
    then show ?thesis using ih by auto
  qed
qed

subsection \<open>What a run stores, and when it returns\<close>

lemma archive_keys_valid_iff:
  "archive_keys_valid v d \<longleftrightarrow>
     (\<forall>t tbl k x. (t, tbl) \<in> set d \<longrightarrow> (k, x) \<in> set tbl \<longrightarrow>
        validate_key_static k v Gxt \<and> k \<noteq> [])"
  by (fastforce simp: archive_keys_valid_def list_all_iff)

lemma load_line_keys_valid:
  assumes "load_line ht v f n raw st = Inr st1" "archive_keys_valid v (data' st)"
  shows "archive_keys_valid v (data' st1)"
proof (cases rule: load_line_cases [where raw = raw and ht = ht and st = st and v = v])
  case blank
  then show ?thesis using assms by (simp add: load_line_blank)
next
  case header
  then have d: "set (data' st1) \<subseteq> insert (strip (butlast (tl (strip raw))), []) (set (data' st))"
    using assms(1) by (auto simp: load_line_header split: if_splits)
  show ?thesis
    unfolding archive_keys_valid_iff
  proof (intro allI impI)
    fix t tbl k x
    assume "(t, tbl) \<in> set (data' st1)" "(k, x) \<in> set tbl"
    then have "(t, tbl) \<in> set (data' st)" using d by auto
    then show "validate_key_static k v Gxt \<and> k \<noteq> []"
      using assms(2) \<open>(k, x) \<in> set tbl\<close> unfolding archive_keys_valid_iff by blast
  qed
next
  case no_separator
  then show ?thesis using assms by (auto simp: load_line_no_separator)
next
  case no_table
  then show ?thesis using assms by (auto simp: load_line_no_table)
next
  case invalid
  then show ?thesis using assms by (auto simp: load_line_invalid)
next
  case (valid t)
  show ?thesis
  proof (cases "kv_key (strip raw) = []")
    case True
    then show ?thesis using assms valid by (auto simp: load_line_valid)
  next
    case False
    with assms(1) valid obtain tbl where tbl: "map_of (data' st) t = Some tbl"
      and st1: "st1 = st\<lparr>data' := dict_set t
                          (dict_set (kv_key (strip raw)) (strip (snd (split_eq (strip raw)))) tbl)
                          (data' st)\<rparr>"
      by (auto simp: load_line_valid split: option.splits)
    have old: "(t, tbl) \<in> set (data' st)" by (rule map_of_SomeD [OF tbl])
    show ?thesis
      unfolding archive_keys_valid_iff
    proof (intro allI impI)
      fix t' tbl' k x
      assume m: "(t', tbl') \<in> set (data' st1)" and kx: "(k, x) \<in> set tbl'"
      from m have "(t', tbl') \<in> insert (t, dict_set (kv_key (strip raw))
            (strip (snd (split_eq (strip raw)))) tbl) (set (data' st))"
        using set_dict_set by (fastforce simp: st1)
      then consider "tbl' = dict_set (kv_key (strip raw)) (strip (snd (split_eq (strip raw)))) tbl"
        | "(t', tbl') \<in> set (data' st)" by blast
      then show "validate_key_static k v Gxt \<and> k \<noteq> []"
      proof cases
        case 1
        then have "(k, x) \<in> insert (kv_key (strip raw), strip (snd (split_eq (strip raw)))) (set tbl)"
          using kx set_dict_set by fastforce
        then show ?thesis
          using valid(5) False old assms(2) by (auto simp: archive_keys_valid_iff)
      next
        case 2
        then show ?thesis using kx assms(2) by (auto simp: archive_keys_valid_iff)
      qed
    qed
  qed
qed

lemma load_lines_keys_valid:
  "load_lines ht v f n ls st = Inr st' \<Longrightarrow> archive_keys_valid v (data' st) \<Longrightarrow>
   archive_keys_valid v (data' st')"
proof (induction ls arbitrary: n st)
  case Nil
  then show ?case by simp
next
  case (Cons raw rest)
  from Cons.prems(1) obtain st1 where 1: "load_line ht v f n raw st = Inr st1"
    and 2: "load_lines ht v f (n + 1) rest st1 = Inr st'"
    by (auto split: sum.splits)
  show ?case by (rule Cons.IH [OF 2 load_line_keys_valid [OF 1 Cons.prems(2)]])
qed

lemma load_files_keys_valid:
  "load_files ht v files st = Inr st' \<Longrightarrow> archive_keys_valid v (data' st) \<Longrightarrow>
   archive_keys_valid v (data' st')"
proof (induction files arbitrary: st)
  case Nil
  then show ?case by simp
next
  case (Cons fc files)
  obtain f c where fc: "fc = (f, c)" by (cases fc)
  from Cons.prems(1) obtain st1 where 1: "load_lines ht v f 1 (py_lines c) st = Inr st1"
    and 2: "load_files ht v files st1 = Inr st'"
    by (auto simp: fc split: sum.splits)
  show ?case by (rule Cons.IH [OF 2 load_lines_keys_valid [OF 1 Cons.prems(2)]])
qed

lemma load_line_returns:
  assumes ok: "\<And>t. current_table st = Some t \<Longrightarrow> t \<in> fst ` set (data' st)"
    and ne: "ht \<Longrightarrow> \<not> empty_header raw"
  shows "\<exists>st1. load_line ht v f n raw st = Inr st1 \<and>
           (\<forall>t. current_table st1 = Some t \<longrightarrow> t \<in> fst ` set (data' st1))"
proof (cases rule: load_line_cases [where raw = raw and ht = ht and st = st and v = v])
  case blank
  then show ?thesis using ok by (simp add: load_line_blank)
next
  case header
  then have "strip (butlast (tl (strip raw))) \<noteq> []" using ne by (auto simp: empty_header_def)
  then show ?thesis using header by (auto simp: load_line_header)
next
  case no_separator
  then show ?thesis using ok by (auto simp: load_line_no_separator)
next
  case no_table
  then show ?thesis using ok by (auto simp: load_line_no_table)
next
  case invalid
  then show ?thesis using ok by (auto simp: load_line_invalid)
next
  case (valid t)
  from ok [OF valid(4)] obtain tbl where tbl: "map_of (data' st) t = Some tbl"
    by (cases "map_of (data' st) t") (auto simp: map_of_eq_None_iff)
  show ?thesis
    using valid tbl ok by (auto simp: load_line_valid fst_set_dict_set)
qed

lemma load_lines_returns:
  "(\<And>t. current_table st = Some t \<Longrightarrow> t \<in> fst ` set (data' st)) \<Longrightarrow>
   (ht \<Longrightarrow> \<forall>raw \<in> set ls. \<not> empty_header raw) \<Longrightarrow>
   \<exists>st'. load_lines ht v f n ls st = Inr st' \<and>
         (\<forall>t. current_table st' = Some t \<longrightarrow> t \<in> fst ` set (data' st'))"
proof (induction ls arbitrary: n st)
  case Nil
  then show ?case by simp
next
  case (Cons raw rest)
  have "\<exists>st1. load_line ht v f n raw st = Inr st1 \<and>
           (\<forall>t. current_table st1 = Some t \<longrightarrow> t \<in> fst ` set (data' st1))"
    by (rule load_line_returns) (use Cons.prems in auto)
  then obtain st1 where 1: "load_line ht v f n raw st = Inr st1"
    and ok1: "\<And>t. current_table st1 = Some t \<Longrightarrow> t \<in> fst ` set (data' st1)" by blast
  have "\<exists>st'. load_lines ht v f (n + 1) rest st1 = Inr st' \<and>
         (\<forall>t. current_table st' = Some t \<longrightarrow> t \<in> fst ` set (data' st'))"
    by (rule Cons.IH) (use ok1 Cons.prems(2) in auto)
  then show ?case by (simp add: 1)
qed

lemma load_files_returns:
  "(\<And>t. current_table st = Some t \<Longrightarrow> t \<in> fst ` set (data' st)) \<Longrightarrow>
   (ht \<Longrightarrow> no_empty_header files) \<Longrightarrow>
   \<exists>st'. load_files ht v files st = Inr st'"
proof (induction files arbitrary: st)
  case Nil
  then show ?case by simp
next
  case (Cons fc files)
  obtain f c where fc: "fc = (f, c)" by (cases fc)
  have "\<exists>st1. load_lines ht v f 1 (py_lines c) st = Inr st1 \<and>
         (\<forall>t. current_table st1 = Some t \<longrightarrow> t \<in> fst ` set (data' st1))"
    by (rule load_lines_returns)
      (use Cons.prems in \<open>auto simp: fc no_empty_header_def list_all_iff\<close>)
  then obtain st1 where 1: "load_lines ht v f 1 (py_lines c) st = Inr st1"
    and ok1: "\<And>t. current_table st1 = Some t \<Longrightarrow> t \<in> fst ` set (data' st1)" by blast
  have "\<exists>st'. load_files ht v files st1 = Inr st'"
    by (rule Cons.IH) (use ok1 Cons.prems(2) in \<open>auto simp: no_empty_header_def\<close>)
  then show ?case using 1 by (simp add: fc)
qed

lemma load_lines_Inl: "load_lines ht v f n ls st = Inl e \<Longrightarrow> e = KeyError"
  by (induction ls arbitrary: n st) (auto split: sum.splits dest: load_line_Inl)

lemma load_files_Inl: "load_files ht v files st = Inl e \<Longrightarrow> e = KeyError"
  by (induction files arbitrary: st) (auto split: sum.splits dest: load_lines_Inl)

lemma expected_all_member:
  "(k, ln, f', m) \<in> set (expected_all ht v seen files) \<Longrightarrow>
   \<exists>c. (f', c) \<in> set files \<and> 1 \<le> ln \<and> ln \<le> length (py_lines c) \<and>
       strip (py_lines c ! (ln - 1)) \<noteq> [] \<and> 61 \<in> set (strip (py_lines c ! (ln - 1))) \<and>
       k = kv_key (strip (py_lines c ! (ln - 1))) \<and> \<not> validate_key_static k v Gxt"
proof (induction files arbitrary: seen)
  case Nil
  then show ?case by simp
next
  case (Cons fc files)
  obtain f c where fc: "fc = (f, c)" by (cases fc)
  show ?case
  proof (cases "(k, ln, f', m) \<in> set (expected_errors ht v f seen 1 (py_lines c))")
    case True
    from expected_errors_member [OF True]
    have "f' = f \<and> 1 \<le> ln \<and> ln \<le> length (py_lines c) \<and>
       strip (py_lines c ! (ln - 1)) \<noteq> [] \<and> 61 \<in> set (strip (py_lines c ! (ln - 1))) \<and>
       k = kv_key (strip (py_lines c ! (ln - 1))) \<and> \<not> validate_key_static k v Gxt"
      by auto
    then show ?thesis by (auto simp: fc)
  next
    case False
    then have "(k, ln, f', m) \<in> set (expected_all ht v (table_seen ht seen (py_lines c)) files)"
      using Cons.prems by (simp add: fc)
    from Cons.IH [OF this] show ?thesis by auto
  qed
qed

lemma load_standard_txt_Inr:
  assumes "load_standard_txt files ht v = Inr (d, errs)"
  shows "errs = expected_all ht v (\<not> ht) files" and "archive_keys_valid v d"
proof -
  from assms obtain st where st: "load_files ht v files (initial_state ht) = Inr st"
    and d: "d = data' st" and e: "errs = invalid_keys st"
    by (auto simp: load_standard_txt_def split: sum.splits)
  have "(current_table (initial_state ht) \<noteq> None) = (\<not> ht)"
    by (simp add: initial_state_def)
  then show "errs = expected_all ht v (\<not> ht) files"
    using load_files_errors [OF st] by (simp add: e initial_state_def)
  have "archive_keys_valid v (data' (initial_state ht))"
    by (simp add: initial_state_def archive_keys_valid_def)
  from load_files_keys_valid [OF st this] show "archive_keys_valid v d" by (simp add: d)
qed

lemma load_standard_txt_returns:
  assumes "ht \<Longrightarrow> no_empty_header files"
  shows "\<exists>d errs. load_standard_txt files ht v = Inr (d, errs)"
proof -
  have "\<exists>st'. load_files ht v files (initial_state ht) = Inr st'"
    by (rule load_files_returns)
      (use assms in \<open>auto simp: initial_state_def split: if_splits\<close>)
  then show ?thesis by (auto simp: load_standard_txt_def)
qed

lemma load_standard_txt_Inl:
  assumes "load_standard_txt files ht v = Inl e"
  shows "e = KeyError \<and> ht"
proof -
  from assms have "load_files ht v files (initial_state ht) = Inl e"
    by (auto simp: load_standard_txt_def split: sum.splits)
  then have "e = KeyError" by (rule load_files_Inl)
  moreover have ht
  proof (rule ccontr)
    assume "\<not> ht"
    then obtain d errs where "load_standard_txt files ht v = Inr (d, errs)"
      using load_standard_txt_returns [of ht files v] by blast
    then show False using assms by simp
  qed
  ultimately show ?thesis by simp
qed

subsection \<open>What a run stores under each table and key\<close>

lemma map_of_dict_set: "map_of (dict_set k x d) = (map_of d)(k \<mapsto> x)"
  by (induction d) (auto simp: fun_eq_iff)

lemma last_entry_Nil [simp]: "last_entry [] t k = None"
  by (simp add: last_entry_def)

lemma last_entry_append:
  "last_entry (a @ b) t k = (case last_entry b t k of Some x \<Rightarrow> Some x | None \<Rightarrow> last_entry a t k)"
  by (simp add: last_entry_def map_add_def split: option.split)

lemma last_entry_single:
  "last_entry [(t', k', x)] t k = (if t = t' \<and> k = k' then Some x else None)"
  by (auto simp: last_entry_def)

lemma expected_entries_Cons:
  "expected_entries ht v cur (raw # rest) =
     expected_entries ht v cur [raw] @ expected_entries ht v (table_after ht cur [raw]) rest"
  by auto

lemma table_after_Cons:
  "table_after ht cur (raw # rest) = table_after ht (table_after ht cur [raw]) rest"
  by simp

lemma archive_lookup_new_table:
  "t \<notin> fst ` set d \<Longrightarrow> archive_lookup (d @ [(t, [])]) t' k = archive_lookup d t' k"
proof -
  assume a: "t \<notin> fst ` set d"
  then have n: "map_of d t = None" by (simp add: map_of_eq_None_iff)
  show ?thesis
  proof (cases "map_of d t'")
    case None
    then show ?thesis by (auto simp: archive_lookup_def map_add_def)
  next
    case (Some tbl)
    then show ?thesis by (auto simp: archive_lookup_def map_add_def)
  qed
qed

lemma archive_lookup_dict_set:
  "map_of d t = Some tbl \<Longrightarrow>
   archive_lookup (dict_set t (dict_set key x tbl) d) t' k =
     (if t' = t \<and> k = key then Some x else archive_lookup d t' k)"
  by (auto simp: archive_lookup_def map_of_dict_set)

lemma load_line_entries:
  assumes "load_line ht v f n raw st = Inr st1"
  shows "current_table st1 = table_after ht (current_table st) [raw]"
    and "archive_lookup (data' st1) t k =
           (case last_entry (expected_entries ht v (current_table st) [raw]) t k of
              Some x \<Rightarrow> Some x
            | None \<Rightarrow> archive_lookup (data' st) t k)"
proof -
  have "current_table st1 = table_after ht (current_table st) [raw] \<and>
        archive_lookup (data' st1) t k =
           (case last_entry (expected_entries ht v (current_table st) [raw]) t k of
              Some x \<Rightarrow> Some x
            | None \<Rightarrow> archive_lookup (data' st) t k)"
  proof (cases rule: load_line_cases [where raw = raw and ht = ht and st = st and v = v])
    case blank
    then show ?thesis using assms by (auto simp: load_line_blank)
  next
    case header
    then have st1: "st1 = st\<lparr>current_table := Some (strip (butlast (tl (strip raw)))),
             data' := (if strip (butlast (tl (strip raw))) \<noteq> []
                          \<and> strip (butlast (tl (strip raw))) \<notin> set (map fst (data' st))
                       then data' st @ [(strip (butlast (tl (strip raw))), [])]
                       else data' st)\<rparr>"
      using assms by (simp add: load_line_header)
    have "archive_lookup (data' st1) t k = archive_lookup (data' st) t k"
      by (simp add: st1 archive_lookup_new_table)
    then show ?thesis using header by (simp add: st1)
  next
    case no_separator
    then show ?thesis using assms by (auto simp: load_line_no_separator)
  next
    case no_table
    then show ?thesis using assms by (auto simp: load_line_no_table)
  next
    case invalid
    then show ?thesis using assms by (auto simp: load_line_invalid)
  next
    case (valid t0)
    show ?thesis
    proof (cases "kv_key (strip raw) = []")
      case True
      have e: "expected_entries ht v (current_table st) [raw] = []"
        using valid True by auto
      have "st1 = st" using assms valid True by (simp add: load_line_valid)
      then show ?thesis using valid True by auto
    next
      case False
      with assms valid obtain tbl where tbl: "map_of (data' st) t0 = Some tbl"
        and st1: "st1 = st\<lparr>data' := dict_set t0
                          (dict_set (kv_key (strip raw)) (strip (snd (split_eq (strip raw)))) tbl)
                          (data' st)\<rparr>"
        by (auto simp: load_line_valid split: option.splits)
      have e: "expected_entries ht v (current_table st) [raw] =
          [(t0, kv_key (strip raw), strip (snd (split_eq (strip raw))))]"
        using valid False by auto
      show ?thesis
        using valid False
        by (auto simp: st1 last_entry_single archive_lookup_dict_set [OF tbl])
    qed
  qed
  then show "current_table st1 = table_after ht (current_table st) [raw]"
    and "archive_lookup (data' st1) t k =
           (case last_entry (expected_entries ht v (current_table st) [raw]) t k of
              Some x \<Rightarrow> Some x
            | None \<Rightarrow> archive_lookup (data' st) t k)"
    by simp_all
qed

lemma load_lines_entries:
  "load_lines ht v f n ls st = Inr st' \<Longrightarrow>
   current_table st' = table_after ht (current_table st) ls \<and>
   (\<forall>t k. archive_lookup (data' st') t k =
           (case last_entry (expected_entries ht v (current_table st) ls) t k of
              Some x \<Rightarrow> Some x
            | None \<Rightarrow> archive_lookup (data' st) t k))"
proof (induction ls arbitrary: n st)
  case Nil
  then show ?case by simp
next
  case (Cons raw rest)
  from Cons.prems obtain st1 where 1: "load_line ht v f n raw st = Inr st1"
    and 2: "load_lines ht v f (n + 1) rest st1 = Inr st'"
    by (auto split: sum.splits)
  note a = load_line_entries [OF 1]
  note b = Cons.IH [OF 2, unfolded a(1)]
  let ?E1 = "expected_entries ht v (current_table st) [raw]"
  let ?E2 = "expected_entries ht v (table_after ht (current_table st) [raw]) rest"
  have ct: "current_table st' = table_after ht (current_table st) (raw # rest)"
    using b by (simp only: table_after_Cons [of ht _ raw rest])
  have "archive_lookup (data' st') t k =
           (case last_entry (expected_entries ht v (current_table st) (raw # rest)) t k of
              Some x \<Rightarrow> Some x
            | None \<Rightarrow> archive_lookup (data' st) t k)" for t k
  proof -
    have b': "archive_lookup (data' st') t k =
        (case last_entry ?E2 t k of Some x \<Rightarrow> Some x | None \<Rightarrow> archive_lookup (data' st1) t k)"
      using b by blast
    have a': "archive_lookup (data' st1) t k =
        (case last_entry ?E1 t k of Some x \<Rightarrow> Some x | None \<Rightarrow> archive_lookup (data' st) t k)"
      by (rule a(2))
    show ?thesis
      unfolding expected_entries_Cons [of ht v _ raw rest] last_entry_append b' a'
      by (cases "last_entry ?E2 t k"; cases "last_entry ?E1 t k") (simp_all only: option.case)
  qed
  then show ?case using ct by blast
qed

lemma load_files_entries:
  "load_files ht v files st = Inr st' \<Longrightarrow>
   (\<forall>t k. archive_lookup (data' st') t k =
           (case last_entry (expected_entries_all ht v (current_table st) files) t k of
              Some x \<Rightarrow> Some x
            | None \<Rightarrow> archive_lookup (data' st) t k))"
proof (induction files arbitrary: st)
  case Nil
  then show ?case by simp
next
  case (Cons fc files)
  obtain f c where fc: "fc = (f, c)" by (cases fc)
  from Cons.prems obtain st1 where 1: "load_lines ht v f 1 (py_lines c) st = Inr st1"
    and 2: "load_files ht v files st1 = Inr st'"
    by (auto simp: fc split: sum.splits)
  note a = load_lines_entries [OF 1]
  note b = Cons.IH [OF 2, unfolded conjunct1 [OF a]]
  let ?E1 = "expected_entries ht v (current_table st) (py_lines c)"
  let ?E2 = "expected_entries_all ht v (table_after ht (current_table st) (py_lines c)) files"
  have e: "expected_entries_all ht v (current_table st) (fc # files) = ?E1 @ ?E2"
    by (simp add: fc)
  have "archive_lookup (data' st') t k =
           (case last_entry (expected_entries_all ht v (current_table st) (fc # files)) t k of
              Some x \<Rightarrow> Some x
            | None \<Rightarrow> archive_lookup (data' st) t k)" for t k
  proof -
    have b': "archive_lookup (data' st') t k =
        (case last_entry ?E2 t k of Some x \<Rightarrow> Some x | None \<Rightarrow> archive_lookup (data' st1) t k)"
      using b by blast
    have a': "archive_lookup (data' st1) t k =
        (case last_entry ?E1 t k of Some x \<Rightarrow> Some x | None \<Rightarrow> archive_lookup (data' st) t k)"
      using a by blast
    show ?thesis
      unfolding e last_entry_append b' a'
      by (cases "last_entry ?E2 t k"; cases "last_entry ?E1 t k") (simp_all only: option.case)
  qed
  then show ?case by blast
qed

lemma load_standard_txt_entries:
  assumes "load_standard_txt files ht v = Inr (d, errs)"
  shows "archive_lookup d t k =
     last_entry (expected_entries_all ht v (if ht then None else Some MAIN) files) t k"
proof -
  from assms obtain st where st: "load_files ht v files (initial_state ht) = Inr st"
    and d: "d = data' st"
    by (auto simp: load_standard_txt_def split: sum.splits)
  have i: "archive_lookup (data' (initial_state ht)) t k = None"
    by (simp add: initial_state_def archive_lookup_def)
  have c: "current_table (initial_state ht) = (if ht then None else Some MAIN)"
    by (simp add: initial_state_def)
  let ?le = "last_entry (expected_entries_all ht v (if ht then None else Some MAIN) files) t k"
  from load_files_entries [OF st]
  have "archive_lookup (data' st) t k =
      (case last_entry (expected_entries_all ht v (current_table (initial_state ht)) files) t k of
         Some x \<Rightarrow> Some x
       | None \<Rightarrow> archive_lookup (data' (initial_state ht)) t k)"
    by blast
  then have "archive_lookup d t k = (case ?le of Some x \<Rightarrow> Some x | None \<Rightarrow> None)"
    unfolding c i d .
  then show ?thesis by (cases ?le) simp_all
qed

section \<open>The claims about the patch-table codec\<close>

text \<open>
  C2 (write layout), as the code has it. \<^verbatim>\<open>dump_whm_table\<close> does not write a file for every
  sequence of entries: \<^verbatim>\<open>str.encode\<close> raises on a text with a surrogate code point and
  \<^verbatim>\<open>struct.pack\<close> raises on a hash, an offset or a blob size that is no uint32. For the
  entries that fit the uint32 fields and can be encoded it writes the little-endian
  entry count, then one (hash, offset) pair per entry in input order, then the blob size,
  then the blob of NUL-terminated UTF-8 texts, each offset being the start of that entry's
  text in the blob; and whenever it writes a file, the entries are of that kind and the
  file is this layout.
\<close>

theorem dump_whm_table_layout:
  "(writable items \<longrightarrow> dump_whm_table items = Inr (whm_layout items)) \<and>
   (\<forall>out. dump_whm_table items = Inr out \<longrightarrow> writable items \<and> out = whm_layout items)"
proof (intro conjI impI allI)
  assume "writable items"
  then show "dump_whm_table items = Inr (whm_layout items)" by (rule dump_whm_table_ok)
next
  fix out
  assume out: "dump_whm_table items = Inr out"
  then show "writable items" by (rule dump_whm_table_Inr)
  then show "out = whm_layout items" using out by (simp add: dump_whm_table_ok)
qed

theorem dump_whm_table_layout_witness:
  "writable [\<lparr>hash = 3735928559, text' = lit ''Hi''\<rparr>, \<lparr>hash = 1, text' = [233]\<rparr>] \<and>
   dump_whm_table [\<lparr>hash = 3735928559, text' = lit ''Hi''\<rparr>, \<lparr>hash = 1, text' = [233]\<rparr>]
   = Inr [2, 0, 0, 0, 239, 190, 173, 222, 0, 0, 0, 0, 1, 0, 0, 0, 3, 0, 0, 0, 6, 0, 0, 0,
          72, 105, 0, 195, 169, 0]"
proof -
  let ?items = "[\<lparr>hash = 3735928559, text' = lit ''Hi''\<rparr>, \<lparr>hash = 1, text' = [233]\<rparr>]"
  have w: "writable ?items"
    by (simp add: writable_def blob_of_def utf8_bytes_def utf8_char_def scalar_def lit_def)
  have l: "whm_layout ?items =
      [2, 0, 0, 0, 239, 190, 173, 222, 0, 0, 0, 0, 1, 0, 0, 0, 3, 0, 0, 0, 6, 0, 0, 0,
       72, 105, 0, 195, 169, 0]"
    by (simp add: whm_layout_def offset_of_def blob_of_def utf8_bytes_def utf8_char_def lit_def
        le32_def to_byte_def upt_rec)
  have d: "dump_whm_table ?items = Inr (whm_layout ?items)"
    by (rule mp [OF conjunct1 [OF dump_whm_table_layout] w])
  show ?thesis by (rule conjI [OF w]) (simp only: d l)
qed

theorem dump_whm_table_layout_counterexample:
  "dump_whm_table [\<lparr>hash = 1, text' = [55296]\<rparr>] = Inl UnicodeEncodeError \<and>
   dump_whm_table [\<lparr>hash = 4294967296, text' = lit ''x''\<rparr>] = Inl StructError \<and>
   dump_whm_table [\<lparr>hash = - 1, text' = lit ''x''\<rparr>] = Inl StructError"
  by (simp add: whm_eval)

text \<open>
  C3 (out-of-range offset), as the code has it. For a buffer whose header parses, an entry
  with offset \<open>\<ge> blob_size\<close> never raises and yields the sentinel; whenever the read
  returns, it returns every entry, those entries with the sentinel; the read returns
  whenever the buffer holds all \<open>blob_size\<close> bytes of the blob; and when it fails, it
  fails with \<^verbatim>\<open>IndexError\<close> on an in-range entry of a buffer that is shorter than its
  header announces.
\<close>

theorem out_of_range_offset_degrades:
  assumes "read_entries data = Inr (es, bstart, bsz)"
  shows "(\<forall>i < length es. bsz \<le> snd (es ! i) \<longrightarrow>
            entry_text (slice data bstart (bstart + bsz)) bsz (snd (es ! i)) = Inr BINARY) \<and>
         (\<forall>rs. parse_whm_table data = Inr rs \<longrightarrow>
            length rs = length es \<and>
            (\<forall>i < length es. hash (rs ! i) = int (fst (es ! i)) \<and>
               (bsz \<le> snd (es ! i) \<longrightarrow> text' (rs ! i) = BINARY))) \<and>
         (bstart + bsz \<le> length data \<longrightarrow> (\<exists>rs. parse_whm_table data = Inr rs)) \<and>
         (\<forall>e. parse_whm_table data = Inl e \<longrightarrow>
            e = IndexError \<and> length data < bstart + bsz \<and>
            (\<exists>i < length es. snd (es ! i) < bsz \<and>
               entry_text (slice data bstart (bstart + bsz)) bsz (snd (es ! i)) = Inl e))"
proof (intro conjI allI impI)
  fix i assume "i < length es" "bsz \<le> snd (es ! i)"
  then show "entry_text (slice data bstart (bstart + bsz)) bsz (snd (es ! i)) = Inr BINARY"
    by (simp add: entry_text_out_of_range)
next
  fix rs assume "parse_whm_table data = Inr rs"
  then show "length rs = length es" by (rule parse_whm_table_result(1) [OF assms])
next
  fix rs i assume rs: "parse_whm_table data = Inr rs" and i: "i < length es"
  show "hash (rs ! i) = int (fst (es ! i))"
    by (rule parse_whm_table_result(2) [OF assms rs i])
next
  fix rs i assume rs: "parse_whm_table data = Inr rs" and i: "i < length es"
    and o: "bsz \<le> snd (es ! i)"
  show "text' (rs ! i) = BINARY"
    using parse_whm_table_result(3) [OF assms rs i] entry_text_out_of_range [OF o]
    by simp
next
  assume "bstart + bsz \<le> length data"
  then show "\<exists>rs. parse_whm_table data = Inr rs" by (rule parse_whm_table_returns [OF assms])
next
  fix e assume e: "parse_whm_table data = Inl e"
  from parse_whm_table_fails [OF assms e]
  show "e = IndexError" "length data < bstart + bsz"
    "\<exists>i < length es. snd (es ! i) < bsz \<and>
       entry_text (slice data bstart (bstart + bsz)) bsz (snd (es ! i)) = Inl e"
    by blast+
qed

theorem out_of_range_offset_degrades_witness:
  "read_entries [2, 0, 0, 0, 7, 0, 0, 0, 0, 0, 0, 0, 9, 0, 0, 0, 3, 0, 0, 0,
                 3, 0, 0, 0, 72, 105, 0] = Inr ([(7, 0), (9, 3)], 24, 3) \<and>
   parse_whm_table [2, 0, 0, 0, 7, 0, 0, 0, 0, 0, 0, 0, 9, 0, 0, 0, 3, 0, 0, 0,
                    3, 0, 0, 0, 72, 105, 0]
   = Inr [\<lparr>hash = 7, text' = lit ''Hi''\<rparr>, \<lparr>hash = 9, text' = lit ''[BINARY]''\<rparr>]"
proof -
  let ?data = "[2, 0, 0, 0, 7, 0, 0, 0, 0, 0, 0, 0, 9, 0, 0, 0, 3, 0, 0, 0,
                3, 0, 0, 0, 72, 105, 0] :: byte list"
  have r: "read_entries ?data = Inr ([(7, 0), (9, 3)], 24, 3)"
    by (simp add: whm_eval)
  have p: "parse_whm_table ?data
      = Inr [\<lparr>hash = 7, text' = lit ''Hi''\<rparr>, \<lparr>hash = 9, text' = lit ''[BINARY]''\<rparr>]"
    by (simp add: whm_eval)
  from out_of_range_offset_degrades [OF r] r p show ?thesis by blast
qed

theorem out_of_range_offset_counterexample:
  "read_entries [2, 0, 0, 0, 1, 0, 0, 0, 0, 0, 0, 0, 2, 0, 0, 0, 4, 0, 0, 0,
                 4, 0, 0, 0, 97, 98] = Inr ([(1, 0), (2, 4)], 24, 4) \<and>
   parse_whm_table [2, 0, 0, 0, 1, 0, 0, 0, 0, 0, 0, 0, 2, 0, 0, 0, 4, 0, 0, 0,
                    4, 0, 0, 0, 97, 98] = Inl IndexError"
  by (simp add: whm_eval)

text \<open>
  C9 (empty texts read back as the sentinel), as the code has it. The read does not return
  for every buffer with such an entry: where the buffer is shorter than its header
  announces, the NUL scan of another entry can raise \<^verbatim>\<open>IndexError\<close>, and then nothing is
  returned. In a buffer whose header parses, an entry whose offset is in range and points
  at a NUL byte itself yields \<^verbatim>\<open>"[BINARY]"\<close>, which is not the empty string: whenever the
  read returns, that entry carries the sentinel, and the read returns when the blob is
  complete. Consequently an entry written with the text \<^verbatim>\<open>""\<close> reads back with the
  sentinel.
\<close>

theorem empty_text_reads_as_sentinel:
  "(read_entries data = Inr (es, bstart, bsz) \<and> i < length es \<and> snd (es ! i) < bsz \<and>
    bstart + snd (es ! i) < length data \<and> data ! (bstart + snd (es ! i)) = 0 \<longrightarrow>
      entry_text (slice data bstart (bstart + bsz)) bsz (snd (es ! i)) = Inr BINARY \<and>
      (\<forall>rs. parse_whm_table data = Inr rs \<longrightarrow> text' (rs ! i) = BINARY) \<and>
      (bstart + bsz \<le> length data \<longrightarrow> (\<exists>rs. parse_whm_table data = Inr rs))) \<and>
   (writable items \<and> j < length items \<and> text' (items ! j) = [] \<longrightarrow>
      (\<exists>out rs. dump_whm_table items = Inr out \<and> parse_whm_table out = Inr rs \<and>
         text' (rs ! j) = BINARY)) \<and>
   BINARY \<noteq> []"
proof (intro conjI impI)
  assume a: "read_entries data = Inr (es, bstart, bsz) \<and> i < length es \<and> snd (es ! i) < bsz \<and>
    bstart + snd (es ! i) < length data \<and> data ! (bstart + snd (es ! i)) = 0"
  then have r: "read_entries data = Inr (es, bstart, bsz)" and i: "i < length es" by simp_all
  from a show t: "entry_text (slice data bstart (bstart + bsz)) bsz (snd (es ! i)) = Inr BINARY"
    by (simp add: empty_entry_in_buffer)
  show "\<forall>rs. parse_whm_table data = Inr rs \<longrightarrow> text' (rs ! i) = BINARY"
  proof (intro allI impI)
    fix rs assume rs: "parse_whm_table data = Inr rs"
    show "text' (rs ! i) = BINARY"
      using parse_whm_table_result(3) [OF r rs i] t by simp
  qed
  show "\<exists>rs. parse_whm_table data = Inr rs" if "bstart + bsz \<le> length data"
    by (rule parse_whm_table_returns [OF r that])
next
  assume b: "writable items \<and> j < length items \<and> text' (items ! j) = []"
  then have w: "writable items" and j: "j < length items" and e: "text' (items ! j) = []"
    by simp_all
  let ?es = "map (\<lambda>k. (nat (hash (items ! k)), offset_of items k)) [0..<length items]"
  let ?bstart = "8 * length items + 8"
  let ?bsz = "length (blob_of items)"
  have d: "dump_whm_table items = Inr (whm_layout items)" by (rule dump_whm_table_ok [OF w])
  have r: "read_entries (whm_layout items) = Inr (?es, ?bstart, ?bsz)"
    by (rule read_entries_layout [OF w])
  have "?bstart + ?bsz \<le> length (whm_layout items)" by (simp add: length_whm_layout)
  from parse_whm_table_returns [OF r this] obtain rs
    where rs: "parse_whm_table (whm_layout items) = Inr rs" by blast
  have j': "j < length ?es" using j by simp
  have "entry_text (slice (whm_layout items) ?bstart (?bstart + ?bsz)) ?bsz (snd (?es ! j))
        = Inr (text' (rs ! j))"
    by (rule parse_whm_table_result(3) [OF r rs j'])
  then have "text' (rs ! j) = BINARY"
    using j empty_item_in_blob [OF j e] by (simp add: slice_layout)
  then show "\<exists>out rs. dump_whm_table items = Inr out \<and> parse_whm_table out = Inr rs \<and>
         text' (rs ! j) = BINARY"
    using d rs by blast
next
  show "BINARY \<noteq> []" by (rule BINARY_nonempty)
qed

theorem empty_text_reads_as_sentinel_witness:
  "read_entries [1, 0, 0, 0, 5, 0, 0, 0, 0, 0, 0, 0, 1, 0, 0, 0, 0] = Inr ([(5, 0)], 16, 1) \<and>
   ([1, 0, 0, 0, 5, 0, 0, 0, 0, 0, 0, 0, 1, 0, 0, 0, 0] :: byte list) ! (16 + 0) = 0 \<and>
   parse_whm_table [1, 0, 0, 0, 5, 0, 0, 0, 0, 0, 0, 0, 1, 0, 0, 0, 0]
     = Inr [\<lparr>hash = 5, text' = BINARY\<rparr>] \<and>
   writable [\<lparr>hash = 5, text' = []\<rparr>] \<and>
   dump_whm_table [\<lparr>hash = 5, text' = []\<rparr>]
     = Inr [1, 0, 0, 0, 5, 0, 0, 0, 0, 0, 0, 0, 1, 0, 0, 0, 0]"
proof -
  let ?data = "[1, 0, 0, 0, 5, 0, 0, 0, 0, 0, 0, 0, 1, 0, 0, 0, 0] :: byte list"
  let ?items = "[\<lparr>hash = 5, text' = []\<rparr>]"
  have r: "read_entries ?data = Inr ([(5, 0)], 16, 1)" by (simp add: whm_eval)
  have z: "?data ! (16 + 0) = 0" by simp
  have w: "writable ?items" by (simp add: writable_def blob_of_def)
  have d: "dump_whm_table ?items = Inr ?data" by (simp add: whm_eval)
  have c: "16 + 1 \<le> length ?data" by simp
  note t = empty_text_reads_as_sentinel [of ?data "[(5, 0)]" 16 1 0 ?items 0]
  from t r z c obtain rs where rs: "parse_whm_table ?data = Inr rs" "text' (rs ! 0) = BINARY"
    by auto
  have p: "parse_whm_table ?data = Inr [\<lparr>hash = 5, text' = BINARY\<rparr>]"
    by (simp add: whm_eval)
  show ?thesis using r z p w d by blast
qed

theorem empty_text_reads_as_sentinel_counterexample:
  "read_entries [2, 0, 0, 0, 1, 0, 0, 0, 1, 0, 0, 0, 2, 0, 0, 0, 0, 0, 0, 0, 4, 0, 0, 0, 0, 98]
     = Inr ([(1, 1), (2, 0)], 24, 4) \<and>
   ([2, 0, 0, 0, 1, 0, 0, 0, 1, 0, 0, 0, 2, 0, 0, 0, 0, 0, 0, 0, 4, 0, 0, 0, 0, 98]
      :: byte list) ! (24 + 0) = 0 \<and>
   parse_whm_table [2, 0, 0, 0, 1, 0, 0, 0, 1, 0, 0, 0, 2, 0, 0, 0, 0, 0, 0, 0, 4, 0, 0, 0, 0, 98]
     = Inl IndexError"
  by (simp add: whm_eval)

text \<open>
  C1 (round trip), as the code has it. Entries whose hashes and blob size are uint32 and
  whose texts are not empty, hold no NUL code point and can be encoded, are written and
  read back unchanged, in order. And entries that were read from any buffer, once written
  back, read back unchanged: a text that only a fallback encoding could decode is stored
  as UTF-8 and compares equal as text.
\<close>

theorem whm_roundtrip:
  "(writable items \<and> (\<forall>it \<in> set items. text' it \<noteq> [] \<and> 0 \<notin> set (text' it)) \<longrightarrow>
      (\<exists>out. dump_whm_table items = Inr out \<and> parse_whm_table out = Inr items)) \<and>
   (parse_whm_table data = Inr read \<and> dump_whm_table read = Inr out' \<longrightarrow>
      parse_whm_table out' = Inr read)"
proof (intro conjI impI)
  assume a: "writable items \<and> (\<forall>it \<in> set items. text' it \<noteq> [] \<and> 0 \<notin> set (text' it))"
  then have w: "writable items" and nul: "\<forall>it \<in> set items. 0 \<notin> set (text' it)"
    and ne: "\<forall>it \<in> set items. text' it \<noteq> []"
    by simp_all
  have "map readback items = items"
    using ne by (intro map_idI) (simp add: readback_id)
  then have "parse_whm_table (whm_layout items) = Inr items"
    using parse_layout [OF w nul] by simp
  then show "\<exists>out. dump_whm_table items = Inr out \<and> parse_whm_table out = Inr items"
    using dump_whm_table_ok [OF w] by blast
next
  assume b: "parse_whm_table data = Inr read \<and> dump_whm_table read = Inr out'"
  then have p: "parse_whm_table data = Inr read" and d: "dump_whm_table read = Inr out'"
    by simp_all
  have w: "writable read" by (rule dump_whm_table_Inr [OF d])
  have o: "out' = whm_layout read" using d dump_whm_table_ok [OF w] by simp
  have t: "\<forall>it \<in> set read. text' it \<noteq> [] \<and> 0 \<notin> set (text' it)"
    by (rule parse_whm_table_texts [OF p])
  have "map readback read = read"
    using t by (intro map_idI) (simp add: readback_id)
  then show "parse_whm_table out' = Inr read"
    using parse_layout [OF w] t by (simp add: o)
qed

theorem whm_roundtrip_witness:
  "writable [\<lparr>hash = 3735928559, text' = lit ''Hello''\<rparr>, \<lparr>hash = 1, text' = lit ''World''\<rparr>] \<and>
   dump_whm_table [\<lparr>hash = 3735928559, text' = lit ''Hello''\<rparr>, \<lparr>hash = 1, text' = lit ''World''\<rparr>]
     = Inr [2, 0, 0, 0, 239, 190, 173, 222, 0, 0, 0, 0, 1, 0, 0, 0, 6, 0, 0, 0, 12, 0, 0, 0,
            72, 101, 108, 108, 111, 0, 87, 111, 114, 108, 100, 0] \<and>
   parse_whm_table [2, 0, 0, 0, 239, 190, 173, 222, 0, 0, 0, 0, 1, 0, 0, 0, 6, 0, 0, 0,
                    12, 0, 0, 0, 72, 101, 108, 108, 111, 0, 87, 111, 114, 108, 100, 0]
     = Inr [\<lparr>hash = 3735928559, text' = lit ''Hello''\<rparr>, \<lparr>hash = 1, text' = lit ''World''\<rparr>] \<and>
   parse_whm_table [1, 0, 0, 0, 7, 0, 0, 0, 0, 0, 0, 0, 2, 0, 0, 0, 233, 0]
     = Inr [\<lparr>hash = 7, text' = [233]\<rparr>] \<and>
   dump_whm_table [\<lparr>hash = 7, text' = [233]\<rparr>]
     = Inr [1, 0, 0, 0, 7, 0, 0, 0, 0, 0, 0, 0, 3, 0, 0, 0, 195, 169, 0] \<and>
   parse_whm_table [1, 0, 0, 0, 7, 0, 0, 0, 0, 0, 0, 0, 3, 0, 0, 0, 195, 169, 0]
     = Inr [\<lparr>hash = 7, text' = [233]\<rparr>]"
proof -
  let ?items = "[\<lparr>hash = 3735928559, text' = lit ''Hello''\<rparr>, \<lparr>hash = 1, text' = lit ''World''\<rparr>]"
  let ?file = "[2, 0, 0, 0, 239, 190, 173, 222, 0, 0, 0, 0, 1, 0, 0, 0, 6, 0, 0, 0, 12, 0, 0, 0,
            72, 101, 108, 108, 111, 0, 87, 111, 114, 108, 100, 0] :: byte list"
  let ?data = "[1, 0, 0, 0, 7, 0, 0, 0, 0, 0, 0, 0, 2, 0, 0, 0, 233, 0] :: byte list"
  let ?read = "[\<lparr>hash = 7, text' = [233]\<rparr>]"
  let ?out = "[1, 0, 0, 0, 7, 0, 0, 0, 0, 0, 0, 0, 3, 0, 0, 0, 195, 169, 0] :: byte list"
  have w: "writable ?items"
    by (simp add: writable_def blob_of_def utf8_bytes_def utf8_char_def scalar_def lit_def)
  have n: "\<forall>it \<in> set ?items. text' it \<noteq> [] \<and> 0 \<notin> set (text' it)"
    by (simp add: lit_def)
  have d: "dump_whm_table ?items = Inr ?file" by (simp add: whm_eval)
  have p: "parse_whm_table ?data = Inr ?read"
    by (simp add: whm_eval cp1252_char_def latin1_decode_def)
  have d': "dump_whm_table ?read = Inr ?out" by (simp add: whm_eval)
  note t = whm_roundtrip [of ?items ?data ?read ?out]
  from t w n d have 1: "parse_whm_table ?file = Inr ?items" by auto
  from t p d' have 2: "parse_whm_table ?out = Inr ?read" by blast
  show ?thesis using w d 1 p d' 2 by blast
qed

theorem whm_roundtrip_counterexample:
  "dump_whm_table [\<lparr>hash = 1, text' = [97, 0, 98]\<rparr>]
     = Inr [1, 0, 0, 0, 1, 0, 0, 0, 0, 0, 0, 0, 4, 0, 0, 0, 97, 0, 98, 0] \<and>
   parse_whm_table [1, 0, 0, 0, 1, 0, 0, 0, 0, 0, 0, 0, 4, 0, 0, 0, 97, 0, 98, 0]
     = Inr [\<lparr>hash = 1, text' = [97]\<rparr>] \<and>
   parse_whm_table [1, 0, 0, 0, 1, 0, 0, 0, 0, 0, 0, 0, 4, 0, 0, 0, 97, 0, 98, 0]
     \<noteq> Inr [\<lparr>hash = 1, text' = [97, 0, 98]\<rparr>] \<and>
   dump_whm_table [\<lparr>hash = 2, text' = []\<rparr>]
     = Inr [1, 0, 0, 0, 2, 0, 0, 0, 0, 0, 0, 0, 1, 0, 0, 0, 0] \<and>
   parse_whm_table [1, 0, 0, 0, 2, 0, 0, 0, 0, 0, 0, 0, 1, 0, 0, 0, 0]
     = Inr [\<lparr>hash = 2, text' = lit ''[BINARY]''\<rparr>] \<and>
   parse_whm_table [1, 0, 0, 0, 2, 0, 0, 0, 0, 0, 0, 0, 1, 0, 0, 0, 0]
     \<noteq> Inr [\<lparr>hash = 2, text' = []\<rparr>]"
  by (simp add: whm_eval)

text \<open>
  C4 (the encoding resolver). \<^verbatim>\<open>decode_bytes\<close> is a total function from bytes to text: it
  tries UTF-8, then cp1252, then latin1, in this order, and returns the result of the
  first attempt that does not raise; the loop falls through to the hexadecimal form, from
  which the bytes can be recovered, exactly when every listed attempt raises (which latin1
  never does). Bytes that are not valid UTF-8 still decode, to one code point per byte.
\<close>

theorem decode_bytes_first_success:
  "encodings = [Utf8, Cp1252, Latin1] \<and>
   decode_bytes bts =
     (case find (\<lambda>enc. attempt enc bts \<noteq> None) encodings of
        Some enc \<Rightarrow> the (attempt enc bts)
      | None \<Rightarrow> bytes_hex bts) \<and>
   (\<forall>encs. (\<forall>enc \<in> set encs. attempt enc bts = None) \<longrightarrow>
      decode_loop encs bts = bytes_hex bts) \<and>
   (\<forall>b. bytes_hex b = bytes_hex bts \<longrightarrow> b = bts) \<and>
   attempt Latin1 bts = Some (map unat bts) \<and>
   (attempt Utf8 bts = None \<longrightarrow>
      length (decode_bytes bts) = length bts \<and>
      (attempt Cp1252 bts = None \<longrightarrow> decode_bytes bts = map unat bts))"
proof (intro conjI allI impI)
  show "encodings = [Utf8, Cp1252, Latin1]" by (rule encodings_def)
  show "decode_bytes bts =
     (case find (\<lambda>enc. attempt enc bts \<noteq> None) encodings of
        Some enc \<Rightarrow> the (attempt enc bts)
      | None \<Rightarrow> bytes_hex bts)"
    unfolding decode_bytes_def by (rule decode_loop_find)
  show "attempt Latin1 bts = Some (map unat bts)" by (rule latin1_length)
next
  fix encs assume "\<forall>enc \<in> set encs. attempt enc bts = None"
  then have "find (\<lambda>enc. attempt enc bts \<noteq> None) encs = None"
    by (simp add: find_None_iff)
  then show "decode_loop encs bts = bytes_hex bts" by (simp add: decode_loop_find)
next
  fix b assume "bytes_hex b = bytes_hex bts"
  then show "b = bts" by (rule bytes_hex_inj)
next
  assume u: "attempt Utf8 bts = None"
  then obtain e where e: "utf8_decode bts = Inl e"
    by (cases "utf8_decode bts") (simp_all add: attempt_def)
  show "length (decode_bytes bts) = length bts"
  proof (cases "cp1252_decode bts")
    case (Inl e')
    then show ?thesis using e by (simp add: decode_bytes_def encodings_def latin1_decode_def)
  next
    case (Inr s)
    then show ?thesis
      using e cp1252_decode_length [OF Inr] by (simp add: decode_bytes_def encodings_def)
  qed
  show "decode_bytes bts = map unat bts" if "attempt Cp1252 bts = None"
  proof -
    from that obtain e' where "cp1252_decode bts = Inl e'"
      by (cases "cp1252_decode bts") (simp_all add: attempt_def)
    then show ?thesis using e by (simp add: decode_bytes_def encodings_def latin1_decode_def)
  qed
qed

theorem decode_bytes_first_success_witness:
  "attempt Utf8 [233, 129] = None \<and> attempt Cp1252 [233, 129] = None \<and>
   decode_bytes [233, 129] = [233, 129] \<and>
   decode_loop [Utf8, Cp1252] [233, 129] = lit ''e981''"
proof -
  let ?b = "[233, 129] :: byte list"
  have u: "attempt Utf8 ?b = None" by (simp add: attempt_def cont_def Let_def)
  have c: "attempt Cp1252 ?b = None" by (simp add: attempt_def cp1252_char_def cpush_def)
  have a: "\<forall>enc \<in> set [Utf8, Cp1252]. attempt enc ?b = None" using u c by simp
  have h: "bytes_hex ?b = lit ''e981''" by (simp add: bytes_hex_def hex_digit_def lit_def)
  note t = decode_bytes_first_success [of ?b]
  from t u c have 1: "decode_bytes ?b = map unat ?b" by blast
  from t a have 2: "decode_loop [Utf8, Cp1252] ?b = bytes_hex ?b" by blast
  show ?thesis using u c 1 2 h by simp
qed

section \<open>The claims about key validation and the text loaders\<close>

text \<open>
  C6 (per-dialect key validation), as the code has it. The static validator accepts a key
  for plain-7 exactly when it is 1 to 7 digits, letters or underscores, for
  hashed-short-upper exactly when it is 1 to 7 digits, upper-case letters or underscores,
  for hashed-8hex exactly when it is 1 to 8 hexadecimal digits, and for plain-or-hash
  exactly when it matches the pattern of the table and, if it begins with \<^verbatim>\<open>0x\<close> or
  \<^verbatim>\<open>0X\<close>, is that prefix followed by exactly 8 hexadecimal digits.
\<close>

theorem validate_key_static_patterns:
  "(validate_key_static key III Gxt \<longleftrightarrow> plain7 key) \<and>
   (validate_key_static key VC Gxt \<longleftrightarrow> hashed_short_upper key) \<and>
   (validate_key_static key SA Gxt \<longleftrightarrow> hashed_8hex key) \<and>
   (validate_key_static key IV Gxt \<longleftrightarrow>
      plain_or_hash key \<and> (lower_startswith_0x key \<longrightarrow> hash_key True key))"
proof (intro conjI)
  show "validate_key_static key III Gxt \<longleftrightarrow> plain7 key"
    by (simp add: validate_key_static_def fullmatch_re_III)
  show "validate_key_static key VC Gxt \<longleftrightarrow> hashed_short_upper key"
    by (simp add: validate_key_static_def fullmatch_re_VC)
  show "validate_key_static key SA Gxt \<longleftrightarrow> hashed_8hex key"
    by (simp add: validate_key_static_def fullmatch_re_SA)
  show "validate_key_static key IV Gxt \<longleftrightarrow>
      plain_or_hash key \<and> (lower_startswith_0x key \<longrightarrow> hash_key True key)"
    using hash_key_ident [of True key]
    by (auto simp: validate_key_static_def fullmatch_re_hash fullmatch_re_IV_plain
        plain_or_hash_ident)
qed

theorem validate_key_static_patterns_witness:
  "lower_startswith_0x (lit ''0X1234abCD'') \<and> hash_key True (lit ''0X1234abCD'') \<and>
   plain_or_hash (lit ''0X1234abCD'') \<and> validate_key_static (lit ''0X1234abCD'') IV Gxt"
proof -
  let ?k = "lit ''0X1234abCD''"
  have s: "lower_startswith_0x ?k" by (simp add: lower_startswith_0x_def lit_def)
  have h: "hash_key True ?k"
    by (simp add: hash_key_def lit_def is_hexdigit_def is_digit_def)
  have p: "plain_or_hash ?k"
    by (simp add: plain_or_hash_def lit_def is_ident_def is_digit_def is_upper_def is_lower_def)
  from validate_key_static_patterns [of ?k] s h p
  have "validate_key_static ?k IV Gxt" by blast
  then show ?thesis using s h p by blast
qed

theorem validate_key_static_patterns_counterexample:
  "plain_or_hash (lit ''0x12'') \<and> \<not> validate_key_static (lit ''0x12'') IV Gxt"
  by (simp add: plain_or_hash_def is_ident_def is_digit_def is_upper_def is_lower_def re_eval)

text \<open>
  C7 (patch-table key strictness), as the code has it. The rule "\<^verbatim>\<open>0x\<close> or \<^verbatim>\<open>0X\<close> and
  exactly 8 hexadecimal digits" is what \<^verbatim>\<open>_validate_key_static\<close> enforces for the file type
  \<^verbatim>\<open>dat\<close>. \<^verbatim>\<open>load_txt_items\<close> accepts every line whose key part has that shape, with the
  number it denotes (a uint32) as hash and the text after the first \<^verbatim>\<open>=\<close>; but it accepts
  a line exactly when the line holds a \<^verbatim>\<open>=\<close> and \<^verbatim>\<open>int(key, 16)\<close> parses the part before
  it, whatever its shape.
\<close>

theorem hash_key_strictness:
  "(validate_key_static key version Dat \<longleftrightarrow> hash_key True key) \<and>
   (hash_key True key \<longrightarrow>
      py_int16 key = Some (int (hex_number (drop 2 key))) \<and>
      hex_number (drop 2 key) < 4294967296) \<and>
   (hash_key True key \<and> strip raw = key @ 61 # t \<longrightarrow>
      load_txt_loop n (raw # rest) items out =
        load_txt_loop (n + 1) rest
          (items @ [\<lparr>hash = int (hex_number (drop 2 key)), text' = t\<rparr>]) out) \<and>
   (fst (load_txt_loop n [raw] [] []) \<noteq> [] \<longleftrightarrow>
      61 \<in> set (strip raw) \<and> py_int16 (fst (split_eq (strip raw))) \<noteq> None)"
proof (intro conjI impI)
  show "validate_key_static key version Dat \<longleftrightarrow> hash_key True key"
    by (simp add: validate_key_static_def fullmatch_re_hash)
next
  assume h: "hash_key True key"
  show "py_int16 key = Some (int (hex_number (drop 2 key)))" by (rule py_int16_hash_key(1) [OF h])
  show "hex_number (drop 2 key) < 4294967296" by (rule py_int16_hash_key(2) [OF h])
next
  assume a: "hash_key True key \<and> strip raw = key @ 61 # t"
  then have h: "hash_key True key" and s: "strip raw = key @ 61 # t" by simp_all
  have sp: "split_eq (key @ 61 # t) = (key, t)" by (rule split_eq_at [OF hash_key_no_eq [OF h]])
  show "load_txt_loop n (raw # rest) items out =
        load_txt_loop (n + 1) rest
          (items @ [\<lparr>hash = int (hex_number (drop 2 key)), text' = t\<rparr>]) out"
    unfolding load_txt_loop_step s sp by (simp add: py_int16_hash_key(1) [OF h])
next
  show "fst (load_txt_loop n [raw] [] []) \<noteq> [] \<longleftrightarrow>
      61 \<in> set (strip raw) \<and> py_int16 (fst (split_eq (strip raw))) \<noteq> None"
    unfolding load_txt_loop_step by (auto split: option.splits)
qed

theorem hash_key_strictness_witness:
  "hash_key True (lit ''0xDEADBEEF'') \<and>
   strip (lit ''0xDEADBEEF=Hello\<newline>'') = lit ''0xDEADBEEF'' @ 61 # lit ''Hello'' \<and>
   hex_number (drop 2 (lit ''0xDEADBEEF'')) = 3735928559 \<and>
   load_txt_loop 1 [lit ''0xDEADBEEF=Hello\<newline>''] [] []
     = ([\<lparr>hash = 3735928559, text' = lit ''Hello''\<rparr>], [])"
proof -
  let ?key = "lit ''0xDEADBEEF''"
  let ?raw = "lit ''0xDEADBEEF=Hello\<newline>''"
  have h: "hash_key True ?key"
    by (simp add: hash_key_def lit_def is_hexdigit_def is_digit_def)
  have s: "strip ?raw = ?key @ 61 # lit ''Hello''"
    by (simp add: strip_def py_isspace_def lit_def)
  have v: "hex_number (drop 2 ?key) = 3735928559"
    by (simp add: hex_number_def hex_value_def lit_def)
  from hash_key_strictness [of ?key _ ?raw "lit ''Hello''" 1 "[]" "[]" "[]"] h s
  have "load_txt_loop 1 [?raw] [] []
      = load_txt_loop (1 + 1) [] ([] @ [\<lparr>hash = int (hex_number (drop 2 ?key)),
                                           text' = lit ''Hello''\<rparr>]) []"
    by blast
  then have "load_txt_loop 1 [?raw] [] [] = ([\<lparr>hash = 3735928559, text' = lit ''Hello''\<rparr>], [])"
    by (simp add: v)
  then show ?thesis using h s v by blast
qed

theorem hash_key_strictness_counterexample:
  "load_txt_items (lit ''1=World'') = ([\<lparr>hash = 1, text' = lit ''World''\<rparr>], []) \<and>
   \<not> hash_key True (lit ''1'')"
  by (simp add: txt_eval hash_key_def)

text \<open>
  C10 (no 32-bit bound in the text loader). \<^verbatim>\<open>load_txt_items\<close> accepts a line with whatever
  integer \<^verbatim>\<open>int(key, 16)\<close> gives for its key part, without a range check; so
  \<^verbatim>\<open>100000000=x\<close> loads with the hash \<open>2^32\<close> and \<^verbatim>\<open>-1=x\<close> with the hash \<open>-1\<close>, and
  \<^verbatim>\<open>dump_whm_table\<close> raises on either, as it does on every list that holds a hash outside
  \<open>0 \<le> h < 2^32\<close>.
\<close>

theorem load_txt_items_unbounded:
  "(strip raw \<noteq> [] \<and> 61 \<in> set (strip raw) \<and> py_int16 (fst (split_eq (strip raw))) = Some v \<longrightarrow>
      load_txt_loop n (raw # rest) items out =
        load_txt_loop (n + 1) rest
          (items @ [\<lparr>hash = v, text' = snd (split_eq (strip raw))\<rparr>]) out) \<and>
   load_txt_items (lit ''100000000=x'') = ([\<lparr>hash = 4294967296, text' = lit ''x''\<rparr>], []) \<and>
   dump_whm_table [\<lparr>hash = 4294967296, text' = lit ''x''\<rparr>] = Inl StructError \<and>
   load_txt_items (lit ''-1=x'') = ([\<lparr>hash = - 1, text' = lit ''x''\<rparr>], []) \<and>
   dump_whm_table [\<lparr>hash = - 1, text' = lit ''x''\<rparr>] = Inl StructError \<and>
   ((\<exists>it \<in> set its. hash it < 0 \<or> 4294967296 \<le> hash it) \<longrightarrow>
      (\<exists>e. dump_whm_table its = Inl e))"
proof (intro conjI impI)
  assume "strip raw \<noteq> [] \<and> 61 \<in> set (strip raw) \<and> py_int16 (fst (split_eq (strip raw))) = Some v"
  then show "load_txt_loop n (raw # rest) items out =
        load_txt_loop (n + 1) rest
          (items @ [\<lparr>hash = v, text' = snd (split_eq (strip raw))\<rparr>]) out"
    unfolding load_txt_loop_step by simp
next
  show "load_txt_items (lit ''100000000=x'') = ([\<lparr>hash = 4294967296, text' = lit ''x''\<rparr>], [])"
    by (simp add: txt_eval)
  show "dump_whm_table [\<lparr>hash = 4294967296, text' = lit ''x''\<rparr>] = Inl StructError"
    by (simp add: whm_eval)
  show "load_txt_items (lit ''-1=x'') = ([\<lparr>hash = - 1, text' = lit ''x''\<rparr>], [])"
    by (simp add: txt_eval)
  show "dump_whm_table [\<lparr>hash = - 1, text' = lit ''x''\<rparr>] = Inl StructError"
    by (simp add: whm_eval)
next
  assume a: "\<exists>it \<in> set its. hash it < 0 \<or> 4294967296 \<le> hash it"
  show "\<exists>e. dump_whm_table its = Inl e"
  proof (cases "dump_whm_table its")
    case (Inl e)
    then show ?thesis by blast
  next
    case (Inr out)
    from dump_whm_table_Inr [OF this] a show ?thesis
      by (auto simp: writable_def list_all_iff)
  qed
qed

theorem load_txt_items_unbounded_witness:
  "strip (lit ''FFFFFFFFFF=big'') \<noteq> [] \<and> 61 \<in> set (strip (lit ''FFFFFFFFFF=big'')) \<and>
   py_int16 (fst (split_eq (strip (lit ''FFFFFFFFFF=big'')))) = Some 1099511627775 \<and>
   load_txt_loop 1 [lit ''FFFFFFFFFF=big''] [] []
     = ([\<lparr>hash = 1099511627775, text' = lit ''big''\<rparr>], []) \<and>
   dump_whm_table [\<lparr>hash = 1099511627775, text' = lit ''big''\<rparr>] = Inl StructError"
proof -
  let ?raw = "lit ''FFFFFFFFFF=big''"
  have s: "strip ?raw = ?raw" by (simp add: strip_def py_isspace_def lit_def)
  have 1: "strip ?raw \<noteq> []" "61 \<in> set (strip ?raw)" by (simp_all add: s) (simp_all add: lit_def)
  have 2: "py_int16 (fst (split_eq (strip ?raw))) = Some 1099511627775"
    unfolding s by (simp add: txt_eval)
  have 3: "snd (split_eq (strip ?raw)) = lit ''big''"
    unfolding s by (simp add: split_eq_def lit_def)
  note t = load_txt_items_unbounded
    [of ?raw 1099511627775 1 "[]" "[]" "[]" "[\<lparr>hash = 1099511627775, text' = lit ''big''\<rparr>]"]
  from t 1 2 have "load_txt_loop 1 [?raw] [] []
      = load_txt_loop (1 + 1) [] ([] @ [\<lparr>hash = 1099511627775,
                                          text' = snd (split_eq (strip ?raw))\<rparr>]) []"
    by blast
  then have 4: "load_txt_loop 1 [?raw] [] []
      = ([\<lparr>hash = 1099511627775, text' = lit ''big''\<rparr>], [])"
    by (simp add: 3)
  from t obtain e where "dump_whm_table [\<lparr>hash = 1099511627775, text' = lit ''big''\<rparr>] = Inl e"
    by auto
  moreover have "dump_whm_table [\<lparr>hash = 1099511627775, text' = lit ''big''\<rparr>] = Inl StructError"
    by (simp add: whm_eval)
  ultimately show ?thesis using 1 2 4 by blast
qed

text \<open>
  C5 (invalid keys are collected), as the code has it. A \<^verbatim>\<open>key=value\<close> line that is read
  while a table is set and whose key fails the key rule of the dialect appends
  \<^verbatim>\<open>(key, line number, file, message)\<close> to the errors, leaves the archive as it is, and
  the loop goes on with the next line. A \<^verbatim>\<open>key=value\<close> line that is read while a table
  of the archive is set and whose key is not empty and passes the key rule stores the
  stripped value under that table and key, and the loop goes on with the next line.
  Whenever \<^verbatim>\<open>_load_standard_txt\<close> returns, its error list is exactly the list of the
  lines with a failing key, in order, with line numbers counted from 1 in each file;
  every key it has stored passes the key rule; and the archive holds, under each table
  and key, the stripped value of the last line with a passing key that was read for
  them, and nothing else. It returns whenever the files are read without tables, and
  with tables whenever no header has an empty name; its one failure is a
  \<^verbatim>\<open>KeyError\<close>, with tables.
\<close>

theorem load_standard_txt_collects_invalid_keys:
  "(strip raw \<noteq> [] \<and> \<not> (ht \<and> is_header (strip raw)) \<and> 61 \<in> set (strip raw) \<and>
    current_table st \<noteq> None \<and> \<not> validate_key_static (kv_key (strip raw)) v Gxt \<longrightarrow>
      load_lines ht v f n (raw # rest) st =
        load_lines ht v f (n + 1) rest
          (st\<lparr>invalid_keys := invalid_keys st
                @ [(kv_key (strip raw), n, f, get_key_validation_message v Gxt)]\<rparr>)) \<and>
   (strip ok \<noteq> [] \<and> \<not> (ht \<and> is_header (strip ok)) \<and> 61 \<in> set (strip ok) \<and>
    current_table st = Some t \<and> map_of (data' st) t = Some tbl \<and>
    validate_key_static (kv_key (strip ok)) v Gxt \<and> kv_key (strip ok) \<noteq> [] \<longrightarrow>
      load_lines ht v f n (ok # rest) st =
        load_lines ht v f (n + 1) rest
          (st\<lparr>data' := dict_set t
                  (dict_set (kv_key (strip ok)) (strip (snd (split_eq (strip ok)))) tbl)
                  (data' st)\<rparr>)) \<and>
   (\<forall>d errs. load_standard_txt files ht v = Inr (d, errs) \<longrightarrow>
      errs = expected_all ht v (\<not> ht) files \<and> archive_keys_valid v d \<and>
      (\<forall>t k. archive_lookup d t k =
         last_entry (expected_entries_all ht v (if ht then None else Some MAIN) files) t k)) \<and>
   ((ht \<longrightarrow> no_empty_header files) \<longrightarrow>
      (\<exists>d errs. load_standard_txt files ht v = Inr (d, errs))) \<and>
   (\<forall>e. load_standard_txt files ht v = Inl e \<longrightarrow> e = KeyError \<and> ht)"
proof (intro conjI allI impI)
  assume "strip raw \<noteq> [] \<and> \<not> (ht \<and> is_header (strip raw)) \<and> 61 \<in> set (strip raw) \<and>
    current_table st \<noteq> None \<and> \<not> validate_key_static (kv_key (strip raw)) v Gxt"
  then have "load_line ht v f n raw st =
     Inr (st\<lparr>invalid_keys := invalid_keys st
               @ [(kv_key (strip raw), n, f, get_key_validation_message v Gxt)]\<rparr>)"
    by (intro load_line_invalid) simp_all
  then show "load_lines ht v f n (raw # rest) st =
        load_lines ht v f (n + 1) rest
          (st\<lparr>invalid_keys := invalid_keys st
                @ [(kv_key (strip raw), n, f, get_key_validation_message v Gxt)]\<rparr>)"
    by simp
next
  assume a: "strip ok \<noteq> [] \<and> \<not> (ht \<and> is_header (strip ok)) \<and> 61 \<in> set (strip ok) \<and>
    current_table st = Some t \<and> map_of (data' st) t = Some tbl \<and>
    validate_key_static (kv_key (strip ok)) v Gxt \<and> kv_key (strip ok) \<noteq> []"
  then have "load_line ht v f n ok st =
     (if kv_key (strip ok) = [] then Inr st
      else (case map_of (data' st) t of
              None \<Rightarrow> Inl KeyError
            | Some tbl \<Rightarrow>
                Inr (st\<lparr>data' := dict_set t
                          (dict_set (kv_key (strip ok)) (strip (snd (split_eq (strip ok)))) tbl)
                          (data' st)\<rparr>)))"
    by (intro load_line_valid) simp_all
  with a have "load_line ht v f n ok st =
     Inr (st\<lparr>data' := dict_set t
                  (dict_set (kv_key (strip ok)) (strip (snd (split_eq (strip ok)))) tbl)
                  (data' st)\<rparr>)"
    by simp
  then show "load_lines ht v f n (ok # rest) st =
        load_lines ht v f (n + 1) rest
          (st\<lparr>data' := dict_set t
                  (dict_set (kv_key (strip ok)) (strip (snd (split_eq (strip ok)))) tbl)
                  (data' st)\<rparr>)"
    by simp
next
  fix d errs assume a: "load_standard_txt files ht v = Inr (d, errs)"
  show "errs = expected_all ht v (\<not> ht) files" by (rule load_standard_txt_Inr(1) [OF a])
  show "archive_keys_valid v d" by (rule load_standard_txt_Inr(2) [OF a])
  fix t k
  show "archive_lookup d t k =
         last_entry (expected_entries_all ht v (if ht then None else Some MAIN) files) t k"
    by (rule load_standard_txt_entries [OF a])
next
  assume "ht \<longrightarrow> no_empty_header files"
  then show "\<exists>d errs. load_standard_txt files ht v = Inr (d, errs)"
    by (intro load_standard_txt_returns) simp
next
  fix e assume a: "load_standard_txt files ht v = Inl e"
  show "e = KeyError" "ht" using load_standard_txt_Inl [OF a] by simp_all
qed

theorem load_standard_txt_collects_invalid_keys_witness:
  "no_empty_header [(lit ''f'', lit ''[T]\<newline>A=x\<newline>b c=2\<newline>B= y '')] \<and>
   load_standard_txt [(lit ''f'', lit ''[T]\<newline>A=x\<newline>b c=2\<newline>B= y '')] True VC
     = Inr ([(lit ''T'', [(lit ''A'', lit ''x''), (lit ''B'', lit ''y'')])],
            [(lit ''b c'', 3, lit ''f'', MsgVC)]) \<and>
   expected_all True VC False [(lit ''f'', lit ''[T]\<newline>A=x\<newline>b c=2\<newline>B= y '')]
     = [(lit ''b c'', 3, lit ''f'', MsgVC)] \<and>
   last_entry (expected_entries_all True VC None
       [(lit ''f'', lit ''[T]\<newline>A=x\<newline>b c=2\<newline>B= y '')]) (lit ''T'') (lit ''B'')
     = Some (lit ''y'') \<and>
   load_lines True VC (lit ''f'') 3 [lit ''b c=2'']
       \<lparr>data' = [(lit ''T'', [(lit ''A'', lit ''x'')])], invalid_keys = [],
        current_table = Some (lit ''T'')\<rparr>
     = Inr \<lparr>data' = [(lit ''T'', [(lit ''A'', lit ''x'')])],
            invalid_keys = [(lit ''b c'', 3, lit ''f'', MsgVC)],
            current_table = Some (lit ''T'')\<rparr> \<and>
   load_lines True VC (lit ''f'') 3 [lit ''B= y '']
       \<lparr>data' = [(lit ''T'', [(lit ''A'', lit ''x'')])], invalid_keys = [],
        current_table = Some (lit ''T'')\<rparr>
     = Inr \<lparr>data' = [(lit ''T'', [(lit ''A'', lit ''x''), (lit ''B'', lit ''y'')])],
            invalid_keys = [], current_table = Some (lit ''T'')\<rparr>"
proof -
  let ?files = "[(lit ''f'', lit ''[T]\<newline>A=x\<newline>b c=2\<newline>B= y '')]"
  let ?raw = "lit ''b c=2''"
  let ?ok = "lit ''B= y ''"
  let ?tbl = "[(lit ''A'', lit ''x'')]"
  let ?st = "\<lparr>data' = [(lit ''T'', ?tbl)], invalid_keys = [],
             current_table = Some (lit ''T'')\<rparr>"
  have ne: "no_empty_header ?files"
    by (simp add: no_empty_header_def empty_header_def main_eval lit_def)
  have ld: "load_standard_txt ?files True VC
     = Inr ([(lit ''T'', [(lit ''A'', lit ''x''), (lit ''B'', lit ''y'')])],
            [(lit ''b c'', 3, lit ''f'', MsgVC)])"
    by (simp add: main_eval re_eval)
  have s: "strip ?raw = ?raw" by (simp add: strip_def py_isspace_def lit_def)
  have k: "kv_key ?raw = lit ''b c''"
    by (simp add: kv_key_def split_eq_def strip_def py_isspace_def lit_def)
  have s': "strip ?ok = lit ''B= y''" by (simp add: strip_def py_isspace_def lit_def)
  have k': "kv_key (lit ''B= y'') = lit ''B''"
    by (simp add: kv_key_def split_eq_def strip_def py_isspace_def lit_def)
  have x': "strip (snd (split_eq (lit ''B= y''))) = lit ''y''"
    by (simp add: split_eq_def strip_def py_isspace_def lit_def)
  have h: "strip ?raw \<noteq> [] \<and> \<not> (True \<and> is_header (strip ?raw)) \<and> 61 \<in> set (strip ?raw) \<and>
    current_table ?st \<noteq> None \<and> \<not> validate_key_static (kv_key (strip ?raw)) VC Gxt"
    unfolding s k by (simp add: is_header_def re_eval)
  have h': "strip ?ok \<noteq> [] \<and> \<not> (True \<and> is_header (strip ?ok)) \<and> 61 \<in> set (strip ?ok) \<and>
    current_table ?st = Some (lit ''T'') \<and> map_of (data' ?st) (lit ''T'') = Some ?tbl \<and>
    validate_key_static (kv_key (strip ?ok)) VC Gxt \<and> kv_key (strip ?ok) \<noteq> []"
    unfolding s' k' by (simp add: is_header_def re_eval)
  note t = load_standard_txt_collects_invalid_keys
    [where raw = ?raw and ok = ?ok and ht = True and st = ?st and v = VC and f = "lit ''f''"
       and n = 3 and rest = "[]" and files = ?files and t = "lit ''T''" and tbl = ?tbl]
  note t1 = conjunct1 [OF t]
  note t2 = conjunct1 [OF conjunct2 [OF t]]
  note t3 = conjunct1 [OF conjunct2 [OF conjunct2 [OF t]]]
  note r = mp [OF spec [OF spec [OF t3]] ld]
  have ex: "expected_all True VC False ?files = [(lit ''b c'', 3, lit ''f'', MsgVC)]"
    using conjunct1 [OF r] by simp
  have "archive_lookup [(lit ''T'', [(lit ''A'', lit ''x''), (lit ''B'', lit ''y'')])]
          (lit ''T'') (lit ''B'')
        = last_entry (expected_entries_all True VC None ?files) (lit ''T'') (lit ''B'')"
    using spec [OF spec [OF conjunct2 [OF conjunct2 [OF r]]], of "lit ''T''" "lit ''B''"]
    by simp
  then have en: "last_entry (expected_entries_all True VC None ?files) (lit ''T'') (lit ''B'')
        = Some (lit ''y'')"
    by (simp add: archive_lookup_def lit_def)
  have "load_lines True VC (lit ''f'') 3 [?raw] ?st =
        load_lines True VC (lit ''f'') (3 + 1) []
          (?st\<lparr>invalid_keys := invalid_keys ?st
                @ [(kv_key (strip ?raw), 3, lit ''f'', get_key_validation_message VC Gxt)]\<rparr>)"
    by (rule mp [OF t1 h])
  then have st: "load_lines True VC (lit ''f'') 3 [?raw] ?st
     = Inr \<lparr>data' = [(lit ''T'', ?tbl)], invalid_keys = [(lit ''b c'', 3, lit ''f'', MsgVC)],
            current_table = Some (lit ''T'')\<rparr>"
    by (simp add: s k get_key_validation_message_def)
  have "load_lines True VC (lit ''f'') 3 [?ok] ?st =
        load_lines True VC (lit ''f'') (3 + 1) []
          (?st\<lparr>data' := dict_set (lit ''T'')
                  (dict_set (kv_key (strip ?ok)) (strip (snd (split_eq (strip ?ok)))) ?tbl)
                  (data' ?st)\<rparr>)"
    by (rule mp [OF t2 h'])
  then have "load_lines True VC (lit ''f'') 3 [?ok] ?st =
        load_lines True VC (lit ''f'') (3 + 1) []
          (?st\<lparr>data' := dict_set (lit ''T'') (dict_set (lit ''B'') (lit ''y'') ?tbl)
                  (data' ?st)\<rparr>)"
    unfolding s' k' x' .
  then have st': "load_lines True VC (lit ''f'') 3 [?ok] ?st
     = Inr \<lparr>data' = [(lit ''T'', [(lit ''A'', lit ''x''), (lit ''B'', lit ''y'')])],
            invalid_keys = [], current_table = Some (lit ''T'')\<rparr>"
    by (simp add: lit_def)
  show ?thesis using ne ld ex en st st' by blast
qed

theorem load_standard_txt_collects_invalid_keys_counterexample:
  "\<not> validate_key_static (kv_key (strip (lit ''bad-key=1''))) VC Gxt \<and>
   load_standard_txt [(lit ''f'', lit ''bad-key=1\<newline>[T]\<newline>A=x'')] True VC
     = Inr ([(lit ''T'', [(lit ''A'', lit ''x'')])], [])"
  by (simp add: main_eval re_eval kv_key_def)

text \<open>
  C8 (missing separator), as the code has it. A line that is not blank, is no table header
  and holds no \<^verbatim>\<open>=\<close> is skipped by \<^verbatim>\<open>_load_standard_txt\<close> without a trace: the state is
  unchanged, and every error that a run returns stems from a line that holds a \<^verbatim>\<open>=\<close>.
  \<^verbatim>\<open>load_txt_items\<close> skips such a line as well; it prints a warning with the line number
  and adds nothing to the items it returns.
\<close>

theorem missing_separator_not_returned:
  "(strip raw \<noteq> [] \<and> \<not> (ht \<and> is_header (strip raw)) \<and> 61 \<notin> set (strip raw) \<longrightarrow>
      load_lines ht v f n (raw # rest) st = load_lines ht v f (n + 1) rest st) \<and>
   (\<forall>d errs k ln f' m.
      load_standard_txt files ht v = Inr (d, errs) \<and> (k, ln, f', m) \<in> set errs \<longrightarrow>
      (\<exists>c. (f', c) \<in> set files \<and> 1 \<le> ln \<and> ln \<le> length (py_lines c) \<and>
           61 \<in> set (strip (py_lines c ! (ln - 1))))) \<and>
   (strip raw \<noteq> [] \<and> 61 \<notin> set (strip raw) \<longrightarrow>
      load_txt_loop n (raw # rest) items out =
        load_txt_loop (n + 1) rest items (out @ [MissingSeparator n]))"
proof (intro conjI allI impI)
  assume "strip raw \<noteq> [] \<and> \<not> (ht \<and> is_header (strip raw)) \<and> 61 \<notin> set (strip raw)"
  then have "load_line ht v f n raw st = Inr st"
    by (intro load_line_no_separator) simp_all
  then show "load_lines ht v f n (raw # rest) st = load_lines ht v f (n + 1) rest st"
    by simp
next
  fix d errs k ln f' m
  assume a: "load_standard_txt files ht v = Inr (d, errs) \<and> (k, ln, f', m) \<in> set errs"
  then have "(k, ln, f', m) \<in> set (expected_all ht v (\<not> ht) files)"
    using load_standard_txt_Inr(1) [of files ht v d errs] by simp
  from expected_all_member [OF this]
  show "\<exists>c. (f', c) \<in> set files \<and> 1 \<le> ln \<and> ln \<le> length (py_lines c) \<and>
           61 \<in> set (strip (py_lines c ! (ln - 1)))"
    by blast
next
  assume "strip raw \<noteq> [] \<and> 61 \<notin> set (strip raw)"
  then show "load_txt_loop n (raw # rest) items out =
        load_txt_loop (n + 1) rest items (out @ [MissingSeparator n])"
    unfolding load_txt_loop_step by simp
qed

theorem missing_separator_not_returned_witness:
  "strip (lit ''nosep'') \<noteq> [] \<and> 61 \<notin> set (strip (lit ''nosep'')) \<and>
   load_lines False VC (lit ''f'') 1 [lit ''nosep''] (initial_state False)
     = Inr (initial_state False) \<and>
   load_txt_loop 1 [lit ''nosep''] [] [] = ([], [MissingSeparator 1]) \<and>
   load_standard_txt [(lit ''f'', lit ''b c=2'')] False VC
     = Inr ([(MAIN, [])], [(lit ''b c'', 1, lit ''f'', MsgVC)]) \<and>
   61 \<in> set (strip (py_lines (lit ''b c=2'') ! (1 - 1)))"
proof -
  let ?raw = "lit ''nosep''"
  let ?files = "[(lit ''f'', lit ''b c=2'')]"
  have s: "strip ?raw = ?raw" by (simp add: strip_def py_isspace_def lit_def)
  have h: "strip ?raw \<noteq> []" "61 \<notin> set (strip ?raw)"
    unfolding s by (simp_all add: lit_def)
  note t = missing_separator_not_returned
    [of ?raw False VC "lit ''f''" 1 "[]" "initial_state False" ?files "[]" "[]"]
  from t h have 1: "load_lines False VC (lit ''f'') 1 [?raw] (initial_state False)
      = load_lines False VC (lit ''f'') (1 + 1) [] (initial_state False)"
    by blast
  from t h have 2: "load_txt_loop 1 [?raw] [] []
      = load_txt_loop (1 + 1) [] [] ([] @ [MissingSeparator 1])"
    by blast
  have ld: "load_standard_txt ?files False VC
     = Inr ([(MAIN, [])], [(lit ''b c'', 1, lit ''f'', MsgVC)])"
    by (simp add: main_eval re_eval)
  have m: "(lit ''b c'', 1, lit ''f'', MsgVC) \<in> set [(lit ''b c'', 1 :: nat, lit ''f'', MsgVC)]"
    by simp
  from t ld m obtain c where "(lit ''f'', c) \<in> set ?files"
    "61 \<in> set (strip (py_lines c ! (1 - 1)))"
    by blast
  then have 3: "61 \<in> set (strip (py_lines (lit ''b c=2'') ! (1 - 1)))" by simp
  show ?thesis using h 1 2 ld 3 by simp
qed

theorem missing_separator_not_returned_counterexample:
  "load_standard_txt [(lit ''f'', lit ''nosep'')] False VC = Inr ([(lit ''MAIN'', [])], []) \<and>
   load_txt_items (lit ''nosep'') = ([], [MissingSeparator 1])"
  by (simp add: main_eval re_eval txt_eval)

end
